theory Spec2Isabelle
  imports Complex_Main "HOL-Library.Multiset"
begin

section \<open>Exceptions and numpy floating-point scalars\<close>

text \<open>
  The Python exceptions the two modules can raise are values of \<open>error\<close>; a function
  that can raise returns \<open>error + 'a\<close>, with \<open>Inl\<close> for the exception.
\<close>

datatype error =
  ValueError | TypeError | ZeroDivisionError | IndexError | UnboundLocalError | AttributeError

definition bindE :: "error + 'a \<Rightarrow> ('a \<Rightarrow> error + 'b) \<Rightarrow> error + 'b" where
  "bindE m f = (case m of Inl e \<Rightarrow> Inl e | Inr x \<Rightarrow> f x)"

text \<open>
  A numpy \<open>float64\<close> scalar is a finite value, an infinity or not-a-number. Finite values
  are modelled by exact reals: the rounding of the 53-bit mantissa is left out, which
  changes none of the comparisons below as long as the counts stay under \<open>2^53\<close>.
  Division of numpy scalars by zero does not raise: it gives \<open>nan\<close> for \<open>0/0\<close> and an
  infinity otherwise (with a warning only).
\<close>

datatype npfloat = Finite real | PInf | NInf | NaN

definition fdiv :: "real \<Rightarrow> real \<Rightarrow> npfloat" where
  "fdiv a b = (if b = 0 then (if a = 0 then NaN else if 0 < a then PInf else NInf)
               else Finite (a / b))"

fun fsub :: "npfloat \<Rightarrow> npfloat \<Rightarrow> npfloat" where
  "fsub (Finite a) (Finite b) = Finite (a - b)"
| "fsub NaN _ = NaN"
| "fsub _ NaN = NaN"
| "fsub PInf PInf = NaN"
| "fsub NInf NInf = NaN"
| "fsub PInf _ = PInf"
| "fsub NInf _ = NInf"
| "fsub (Finite a) PInf = NInf"
| "fsub (Finite a) NInf = PInf"

fun is_finite :: "npfloat \<Rightarrow> bool" where
  "is_finite (Finite a) = True"
| "is_finite _ = False"

section \<open>Signal detection: \<open>compute_d_prime\<close> (utils/metrics.py)\<close>

text \<open>
  \<open>y_true\<close> and \<open>y_pred\<close> are one-dimensional integer arrays. An elementwise operation
  on two arrays broadcasts them: equal lengths pair up, a length-one array is repeated,
  anything else raises \<open>ValueError\<close>.
\<close>

definition broadcast :: "'a list \<Rightarrow> 'b list \<Rightarrow> error + ('a \<times> 'b) list" where
  "broadcast xs ys =
     (if length xs = length ys then Inr (zip xs ys)
      else if length xs = 1 then Inr (map (\<lambda>y. (hd xs, y)) ys)
      else if length ys = 1 then Inr (map (\<lambda>x. (x, hd ys)) xs)
      else Inl ValueError)"

text \<open>\<open>np.logical_and(y_pred == p, y_true == t).sum()\<close>\<close>

definition logical_and_sum :: "int \<Rightarrow> int \<Rightarrow> int list \<Rightarrow> int list \<Rightarrow> error + nat" where
  "logical_and_sum p t y_pred y_true =
     bindE (broadcast y_pred y_true)
       (\<lambda>ps. Inr (length (filter (\<lambda>(yp, yt). yp = p \<and> yt = t) ps)))"

text \<open>
  \<open>z_score = norm.ppf\<close> is scipy's quantile function of the standard normal
  distribution; it is a parameter of the model.
\<close>

definition compute_d_prime ::
  "(npfloat \<Rightarrow> npfloat) \<Rightarrow> int list \<Rightarrow> int list \<Rightarrow> error + (npfloat \<times> npfloat \<times> npfloat)" where
  "compute_d_prime z_score y_true y_pred =
     bindE (logical_and_sum 1 1 y_pred y_true) (\<lambda>hits.
     bindE (logical_and_sum 0 1 y_pred y_true) (\<lambda>misses.
     let hit_rate = fdiv (real hits) (real (hits + misses)) in
     bindE (logical_and_sum 1 0 y_pred y_true) (\<lambda>false_alarms.
     bindE (logical_and_sum 0 0 y_pred y_true) (\<lambda>correct_rejects.
     let false_alarm_rate = fdiv (real false_alarms) (real (false_alarms + correct_rejects));
         half_hit = fdiv 0.5 (real (hits + misses));
         half_fa = fdiv 0.5 (real (false_alarms + correct_rejects));
         hit_rate = (if hit_rate = Finite 1 then fsub (Finite 1) half_hit else hit_rate);
         hit_rate = (if hit_rate = Finite 0 then half_hit else hit_rate);
         false_alarm_rate =
           (if false_alarm_rate = Finite 1 then fsub (Finite 1) half_fa else false_alarm_rate);
         false_alarm_rate =
           (if false_alarm_rate = Finite 0 then half_fa else false_alarm_rate);
         d_prime = fsub (z_score hit_rate) (z_score false_alarm_rate)
     in Inr (hit_rate, false_alarm_rate, d_prime)))))"

text \<open>
  A rational function with the boundary behaviour of \<open>norm.ppf\<close> (\<open>-inf\<close> at 0,
  \<open>inf\<close> at 1, \<open>nan\<close> outside the unit interval, finite and increasing inside),
  to instantiate the parameter \<open>z_score\<close> at concrete inputs.
\<close>

definition logit_ppf :: "npfloat \<Rightarrow> npfloat" where
  "logit_ppf x = (case x of
      Finite p \<Rightarrow> (if p < 0 \<or> 1 < p then NaN else if p = 0 then NInf else if p = 1 then PInf
                   else Finite ((2 * p - 1) / (p * (1 - p))))
    | _ \<Rightarrow> NaN)"

text \<open>
  The function \<open>norm.ppf\<close> itself, the inverse of the standard normal distribution
  function. The distribution function is \<open>1/2 + (1 / sqrt (2 pi)) * G x\<close>, where \<open>G x\<close> is
  the integral of \<open>exp (- t\<^sup>2 / 2)\<close> from 0 to \<open>x\<close>, given here by its power series
  \<open>x - x^3 / 6 + x^5 / 40 - ...\<close>, whose \<open>n\<close>-th term is \<open>gauss_term x n\<close> with sign
  \<open>(-1)^n\<close>. That the series has derivative \<open>exp (- x\<^sup>2 / 2)\<close> and value 0 at 0 is proved
  below (\<open>DERIV_gauss_series\<close>, \<open>gauss_series_0\<close>).
\<close>

definition gauss_coeff :: "nat \<Rightarrow> real" where
  "gauss_coeff k = (if even k then 0 else (- 1) ^ (k div 2) / (2 ^ (k div 2) * fact (k div 2) * real k))"

definition gauss_series :: "real \<Rightarrow> real" where
  "gauss_series x = (\<Sum>k. gauss_coeff k * x ^ k)"

definition gauss_term :: "real \<Rightarrow> nat \<Rightarrow> real" where
  "gauss_term x n = x * (x\<^sup>2 / 2) ^ n / (fact n * real (2 * n + 1))"

definition norm_cdf :: "real \<Rightarrow> real" where
  "norm_cdf x = 1 / 2 + gauss_series x / sqrt (2 * pi)"

definition norm_quantile :: "real \<Rightarrow> real" where
  "norm_quantile p = (THE x. norm_cdf x = p)"

definition norm_ppf :: "npfloat \<Rightarrow> npfloat" where
  "norm_ppf x = (case x of
      Finite p \<Rightarrow> (if p < 0 \<or> 1 < p then NaN else if p = 0 then NInf else if p = 1 then PInf
                   else Finite (norm_quantile p))
    | _ \<Rightarrow> NaN)"

section \<open>Per-cell accuracy: \<open>acc_grid\<close> and \<open>err_grid\<close> (utils/metrics.py)\<close>

text \<open>A \<open>for\<close> loop whose body can raise: the first exception ends the loop.\<close>

fun foldE :: "('a \<Rightarrow> 's \<Rightarrow> error + 's) \<Rightarrow> 'a list \<Rightarrow> 's \<Rightarrow> error + 's" where
  "foldE f [] s = Inr s"
| "foldE f (x # xs) s = bindE (f x s) (foldE f xs)"

text \<open>
  A character grid is a nested list of strings, one per cell, the empty string for an
  empty cell. \<open>np.asarray(g).shape\<close> is (rows, columns) for a rectangular grid with at
  least one row, the only kind the manifest holds; for any other nested list numpy gives
  no two-dimensional array, which is modelled as the \<open>ValueError\<close> current numpy raises.
  The count arrays are float arrays that hold whole numbers; they are modelled by
  natural numbers.
\<close>

type_synonym char_grid = "string list list"

definition asarray_shape :: "'a list list \<Rightarrow> error + (nat \<times> nat)" where
  "asarray_shape g =
     (if g \<noteq> [] \<and> (\<forall>row \<in> set g. length row = length (hd g))
      then Inr (length g, length (hd g)) else Inl ValueError)"

fun mapE :: "('a \<Rightarrow> error + 'b) \<Rightarrow> 'a list \<Rightarrow> error + 'b list" where
  "mapE f [] = Inr []"
| "mapE f (x # xs) = bindE (f x) (\<lambda>y. bindE (mapE f xs) (\<lambda>ys. Inr (y # ys)))"

text \<open>\<open>zip(*np.nonzero(g != ''))\<close>: the non-empty cells, in row-major order.\<close>

definition nonzero_cells :: "char_grid \<Rightarrow> (nat \<times> nat) list" where
  "nonzero_cells g =
     concat (map (\<lambda>r. map (\<lambda>c. (r, c)) (filter (\<lambda>c. g ! r ! c \<noteq> []) [0..<length (g ! r)]))
                 [0..<length g])"

text \<open>\<open>counts[row_ind, col_ind] += 1\<close>\<close>

definition incr :: "nat \<times> nat \<Rightarrow> nat list list \<Rightarrow> error + nat list list" where
  "incr = (\<lambda>(row_ind, col_ind) counts.
     if row_ind < length counts \<and> col_ind < length (counts ! row_ind)
     then Inr (counts[row_ind := (counts ! row_ind)[col_ind := counts ! row_ind ! col_ind + 1]])
     else Inl IndexError)"

text \<open>The body of the loop over \<open>zip(char_grids, stim_fnames_meta)\<close>.\<close>

definition acc_step ::
  "string list \<Rightarrow> int list \<Rightarrow> int list \<Rightarrow> char_grid \<times> string
     \<Rightarrow> nat list list \<times> nat list list \<Rightarrow> error + (nat list list \<times> nat list list)" where
  "acc_step stim_fnames y_true y_pred = (\<lambda>(g, g_fname) (correct_counts, trial_counts).
     let cells = nonzero_cells g;
         ind = filter (\<lambda>i. stim_fnames ! i = g_fname) [0..<length stim_fnames]
     in if length ind \<noteq> 1 then Inl ValueError
        else
          let ind = hd ind in
          if length y_true \<le> ind \<or> length y_pred \<le> ind then Inl IndexError
          else
            let is_correct = (y_true ! ind = y_pred ! ind) in
            bindE (if is_correct then foldE incr cells correct_counts else Inr correct_counts)
              (\<lambda>correct_counts.
            bindE (foldE incr cells trial_counts)
              (\<lambda>trial_counts. Inr (correct_counts, trial_counts))))"

text \<open>
  The function returns the accuracy array alone, or a tuple with the two count arrays
  when \<open>return_counts\<close> is set.
\<close>

datatype grid_result =
  Grid "npfloat list list"
| GridCounts "npfloat list list" "nat list list" "nat list list"

definition acc_grid ::
  "string list \<Rightarrow> int list \<Rightarrow> int list \<Rightarrow> char_grid list \<Rightarrow> string list \<Rightarrow> bool
     \<Rightarrow> error + grid_result" where
  "acc_grid stim_fnames y_true y_pred char_grids stim_fnames_meta return_counts =
     bindE (mapE asarray_shape char_grids) (\<lambda>grid_shape.
     if length (remdups grid_shape) \<noteq> 1 then Inl ValueError
     else
       let (rows, cols) = hd (remdups grid_shape);
           zeros = replicate rows (replicate cols (0 :: nat))
       in
       bindE (foldE (acc_step stim_fnames y_true y_pred) (zip char_grids stim_fnames_meta)
                (zeros, zeros))
         (\<lambda>(correct_counts, trial_counts).
       let acc = map2 (map2 (\<lambda>c t. fdiv (real c) (real t))) correct_counts trial_counts
       in Inr (if return_counts then GridCounts acc correct_counts trial_counts else Grid acc)))"

definition err_grid ::
  "string list \<Rightarrow> int list \<Rightarrow> int list \<Rightarrow> char_grid list \<Rightarrow> string list \<Rightarrow> bool
     \<Rightarrow> error + grid_result" where
  "err_grid stim_fnames y_true y_pred char_grids stim_fnames_meta return_counts =
     bindE (acc_grid stim_fnames y_true y_pred char_grids stim_fnames_meta return_counts)
       (\<lambda>r. case (return_counts, r) of
           (True, GridCounts acc correct_counts trial_counts) \<Rightarrow>
             Inr (GridCounts (map (map (fsub (Finite 1))) acc) correct_counts trial_counts)
         | (False, Grid acc) \<Rightarrow> Inr (Grid (map (map (fsub (Finite 1))) acc))
         | _ \<Rightarrow> Inl TypeError)"

text \<open>Two grids of shape (2, 2) to run the functions on.\<close>

definition grid_a :: char_grid where "grid_a = [[''t'', []], [''d'', []]]"
definition grid_b :: char_grid where "grid_b = [[[], ''d''], [''d'', []]]"

section \<open>The dataset partitioner: \<open>data\<close> (data.py)\<close>

subsection \<open>The manifest and the local variables\<close>

text \<open>
  The manifest is the parsed JSON file: a dict from stimulus type to a dict from set
  size to a dict from presence state to a list of stimulus records. Python dicts keep
  insertion order, so each is an association list; the set-size keys are modelled by
  the integer that \<open>int(k)\<close> gives. Of a stimulus record only \<open>filename\<close> is read.
\<close>

record stim_info =
  filename :: string

type_synonym present_absent_dict = "(string \<times> stim_info list) list"
type_synonym stim_info_by_set_size = "(int \<times> present_absent_dict) list"
type_synonym fnames_dict = "(string \<times> stim_info_by_set_size) list"

text \<open>
  The accumulators of the function. \<open>x_val\<close> and \<open>set_size_vec_val\<close> are \<open>None\<close>
  when there is no validation set. For \<open>stim_type_vec_val\<close>, \<open>None\<close> stands for a
  local name that has not been assigned: it is bound only under \<open>if val_size:\<close>.
\<close>

record vars =
  x_train :: "string list"
  set_size_vec_train :: "int list"
  stim_type_vec_train :: "string list"
  x_val :: "string list option"
  set_size_vec_val :: "int list option"
  stim_type_vec_val :: "string list option"
  x_test :: "string list"
  set_size_vec_test :: "int list"
  stim_type_vec_test :: "string list"

text \<open>The dictionary that \<open>joblib.dump\<close> writes.\<close>

record data_dict = vars +
  y_train :: "int list"
  y_val :: "int list option"
  y_test :: "int list"
  set_sizes_by_stim_stype :: "(string \<times> int list) list"

subsection \<open>Python and numpy primitives\<close>

text \<open>\<open>if val_size:\<close> is false for \<open>None\<close> and for \<open>0\<close>.\<close>

definition truthy :: "int option \<Rightarrow> bool" where
  "truthy x = (case x of None \<Rightarrow> False | Some n \<Rightarrow> n \<noteq> 0)"

text \<open>
  \<open>a / b\<close> on integers is a float, modelled by an exact real (sizes stay far below
  \<open>2^53\<close>); \<open>q.is_integer()\<close> and \<open>int(q)\<close> follow.
\<close>

definition true_div :: "real \<Rightarrow> real \<Rightarrow> error + real" where
  "true_div a b = (if b = 0 then Inl ZeroDivisionError else Inr (a / b))"

definition is_integer :: "real \<Rightarrow> bool" where
  "is_integer q = (q = of_int \<lfloor>q\<rfloor>)"

definition int_of_float :: "real \<Rightarrow> int" where
  "int_of_float q = (if 0 \<le> q then \<lfloor>q\<rfloor> else \<lceil>q\<rceil>)"

text \<open>\<open>if q.is_integer(): q = int(q)\<close>, \<open>else: raise TypeError(...)\<close>\<close>

definition whole :: "real \<Rightarrow> error + int" where
  "whole q = (if is_integer q then Inr (int_of_float q) else Inl TypeError)"

text \<open>\<open>d[k] = v\<close> on an insertion-ordered dict.\<close>

fun dict_set :: "'k \<Rightarrow> 'v \<Rightarrow> ('k \<times> 'v) list \<Rightarrow> ('k \<times> 'v) list" where
  "dict_set k v [] = [(k, v)]"
| "dict_set k v (kv # d) = (if fst kv = k then (k, v) # d else kv # dict_set k v d)"

text \<open>
  \<open>[inds.pop() for _ in range(n)]\<close>: \<open>pop\<close> takes the last element and raises
  \<open>IndexError\<close> on an empty list. The result is the list of popped indices and what
  is left of \<open>inds\<close>.
\<close>

fun pops :: "nat \<Rightarrow> nat list \<Rightarrow> error + (nat list \<times> nat list)" where
  "pops 0 inds = Inr ([], inds)"
| "pops (Suc n) inds =
     (if inds = [] then Inl IndexError
      else bindE (pops n (butlast inds)) (\<lambda>(popped, rest). Inr (last inds # popped, rest)))"

text \<open>
  \<open>stim_fnames_arr[np.asarray(inds)].tolist()\<close>. \<open>np.asarray([])\<close> is an array of
  floats, which numpy refuses as an index (\<open>IndexError\<close>: arrays used as indices must
  be of integer type); an index past the end raises \<open>IndexError\<close> too.
\<close>

definition fancy_index :: "'a list \<Rightarrow> nat list \<Rightarrow> error + 'a list" where
  "fancy_index arr inds =
     (if inds = [] then Inl IndexError
      else if \<exists>i \<in> set inds. length arr \<le> i then Inl IndexError
      else Inr (map (\<lambda>i. arr ! i) inds))"

text \<open>\<open>xs.extend(ys)\<close> on a variable that may hold \<open>None\<close> or be unbound.\<close>

definition extend_opt :: "error \<Rightarrow> 'a list option \<Rightarrow> 'a list \<Rightarrow> error + 'a list" where
  "extend_opt e xs ys = (case xs of None \<Rightarrow> Inl e | Some l \<Rightarrow> Inr (l @ ys))"

text \<open>\<open>sub in s\<close> on strings.\<close>

fun startswith :: "string \<Rightarrow> string \<Rightarrow> bool" where
  "startswith s [] = True"
| "startswith [] (c # sub) = False"
| "startswith (d # s) (c # sub) = (d = c \<and> startswith s sub)"

fun str_in :: "string \<Rightarrow> string \<Rightarrow> bool" where
  "str_in sub [] = (sub = [])"
| "str_in sub (c # s) = (startswith (c # s) sub \<or> str_in sub s)"

text \<open>
  \<open>random.shuffle(inds)\<close> permutes the list in place and advances the state of the
  process-wide generator of the \<open>random\<close> module. The standard library is not part of
  the repository: the shuffle is a parameter, a function from the generator state and
  the list to the shuffled list and the next state.
\<close>

type_synonym 'g shuffle = "'g \<Rightarrow> nat list \<Rightarrow> nat list \<times> 'g"

subsection \<open>The loops\<close>

text \<open>
  The body of the innermost loop (lines 193 to 231), for one leaf pool \<open>stim_fnames\<close>,
  in three blocks that pass on the accumulators and what is left of \<open>inds\<close>.
  Lines 206 to 212: the training files.
\<close>

definition train_block ::
  "int \<Rightarrow> string \<Rightarrow> int \<Rightarrow> string list \<Rightarrow> vars \<times> nat list \<Rightarrow> error + (vars \<times> nat list)" where
  "train_block train_size_per_set_size stim_type set_size stim_fnames = (\<lambda>(v, inds).
     bindE (pops (nat train_size_per_set_size) inds) (\<lambda>(train_inds, inds).
     bindE (fancy_index stim_fnames train_inds) (\<lambda>tmp_x_train.
     Inr (v\<lparr>x_train := x_train v @ tmp_x_train,
             set_size_vec_train :=
               set_size_vec_train v @ replicate (length tmp_x_train) set_size,
             stim_type_vec_train :=
               stim_type_vec_train v @ replicate (length tmp_x_train) stim_type\<rparr>, inds))))"

text \<open>Lines 214 to 221: the validation files.\<close>

definition val_block ::
  "int \<Rightarrow> string \<Rightarrow> int \<Rightarrow> string list \<Rightarrow> vars \<times> nat list \<Rightarrow> error + (vars \<times> nat list)" where
  "val_block val_size_per_set_size stim_type set_size stim_fnames = (\<lambda>(v, inds).
     if 0 < val_size_per_set_size then
       bindE (pops (nat val_size_per_set_size) inds) (\<lambda>(val_inds, inds).
       bindE (fancy_index stim_fnames val_inds) (\<lambda>tmp_x_val.
       bindE (extend_opt AttributeError (x_val v) tmp_x_val) (\<lambda>xv.
       bindE (extend_opt AttributeError (set_size_vec_val v)
                (replicate (length tmp_x_val) set_size)) (\<lambda>sv.
       bindE (extend_opt UnboundLocalError (stim_type_vec_val v)
                (replicate (length tmp_x_val) stim_type)) (\<lambda>tv.
       Inr (v\<lparr>x_val := Some xv, set_size_vec_val := Some sv,
               stim_type_vec_val := Some tv\<rparr>, inds))))))
     else Inr (v, inds))"

text \<open>
  Lines 223 to 231: the test files. The last line extends \<open>stim_type_vec_train\<close>, as
  the source does. A \<open>test_size_per_set_size\<close> that is neither positive nor -1 would
  leave \<open>test_inds\<close> unassigned; lines 161 to 171 exclude it.
\<close>

definition test_block ::
  "int \<Rightarrow> string \<Rightarrow> int \<Rightarrow> string list \<Rightarrow> vars \<times> nat list \<Rightarrow> error + vars" where
  "test_block test_size_per_set_size stim_type set_size stim_fnames = (\<lambda>(v, inds).
     bindE (if 0 < test_size_per_set_size then
              bindE (pops (nat test_size_per_set_size) inds) (\<lambda>(test_inds, inds).
              Inr test_inds)
            else if test_size_per_set_size = - 1 then Inr inds
            else Inl UnboundLocalError) (\<lambda>test_inds.
     bindE (fancy_index stim_fnames test_inds) (\<lambda>tmp_x_test.
     Inr (v\<lparr>x_test := x_test v @ tmp_x_test,
             set_size_vec_test :=
               set_size_vec_test v @ replicate (length tmp_x_test) set_size,
             stim_type_vec_train :=
               stim_type_vec_train v @ replicate (length tmp_x_test) stim_type\<rparr>))))"

text \<open>Lines 193 to 205, then the three blocks.\<close>

definition leaf ::
  "'g shuffle \<Rightarrow> int \<Rightarrow> int \<Rightarrow> int \<Rightarrow> string \<Rightarrow> int \<Rightarrow> string list
     \<Rightarrow> vars \<times> 'g \<Rightarrow> error + (vars \<times> 'g)" where
  "leaf shuffle train_size_per_set_size val_size_per_set_size test_size_per_set_size
        stim_type set_size stim_fnames = (\<lambda>(v, g).
     let total_size = sum_list (filter (\<lambda>sz. sz \<noteq> 0 \<and> sz \<noteq> - 1)
            [train_size_per_set_size, val_size_per_set_size, test_size_per_set_size])
     in
     if int (length stim_fnames) < total_size then Inl ValueError
     else
       let (inds, g) = shuffle g [0..<length stim_fnames] in
       bindE (train_block train_size_per_set_size stim_type set_size stim_fnames (v, inds))
         (\<lambda>(v, inds).
       bindE (val_block val_size_per_set_size stim_type set_size stim_fnames (v, inds))
         (\<lambda>(v, inds).
       bindE (test_block test_size_per_set_size stim_type set_size stim_fnames (v, inds))
         (\<lambda>v. Inr (v, g)))))"

text \<open>
  \<open>(size_per_stim_type / len(set_sizes)) / 2\<close>, which must be a whole number
  (lines 143 to 150, and the same for the validation and test sizes).
\<close>

definition size_per_set_size :: "int \<Rightarrow> nat \<Rightarrow> error + int" where
  "size_per_set_size size_per_stim_type len_set_sizes =
     bindE (true_div (real_of_int size_per_stim_type) (real len_set_sizes))
       (\<lambda>q. whole (q / 2))"

text \<open>The body of the loop over the stimulus types (lines 135 to 231).\<close>

definition per_stim_type ::
  "'g shuffle \<Rightarrow> int \<Rightarrow> int option \<Rightarrow> int \<Rightarrow> int option \<Rightarrow> int
     \<Rightarrow> string \<times> stim_info_by_set_size
     \<Rightarrow> vars \<times> (string \<times> int list) list \<times> 'g
     \<Rightarrow> error + (vars \<times> (string \<times> int list) list \<times> 'g)" where
  "per_stim_type shuffle train_size_per_stim_type val_size val_size_per_stim_type
        test_size test_size_per_stim_type =
     (\<lambda>(stim_type, stim_info_by_set_size) (v, set_sizes_by_stim_stype, g).
     let set_sizes = map fst stim_info_by_set_size;
         set_sizes_by_stim_stype = dict_set stim_type set_sizes set_sizes_by_stim_stype
     in
     bindE (size_per_set_size train_size_per_stim_type (length set_sizes))
       (\<lambda>train_size_per_set_size.
     bindE (if truthy val_size
            then size_per_set_size val_size_per_stim_type (length set_sizes)
            else Inr 0)
       (\<lambda>val_size_per_set_size.
     bindE (if test_size = None \<or> test_size = Some (- 1) then Inr (- 1)
            else if 0 < the test_size
            then size_per_set_size test_size_per_stim_type (length set_sizes)
            else Inl ValueError)
       (\<lambda>test_size_per_set_size.
     let stim_fnames_by_set_size =
           map (\<lambda>(set_size, present_absent_dict).
                  (set_size, map (\<lambda>(present_or_absent, stim_info_list).
                                    (present_or_absent, map filename stim_info_list))
                                 present_absent_dict))
               stim_info_by_set_size
     in
     bindE (foldE (\<lambda>(set_size, stim_fnames_present_absent).
                     foldE (\<lambda>(present_or_absent, stim_fnames).
                              leaf shuffle train_size_per_set_size val_size_per_set_size
                                test_size_per_set_size stim_type set_size stim_fnames)
                           stim_fnames_present_absent)
                  stim_fnames_by_set_size (v, g))
       (\<lambda>(v, g). Inr (v, set_sizes_by_stim_stype, g))))))"

text \<open>
  \<open>size / num_stim_types\<close>, which must be a whole number (lines 106 to 131); an
  unset size gives the value \<open>unset\<close>.
\<close>

definition size_per_stim_type :: "int option \<Rightarrow> nat \<Rightarrow> int \<Rightarrow> error + int" where
  "size_per_stim_type sz num_stim_types unset =
     (if truthy sz
      then bindE (true_div (real_of_int (the sz)) (real num_stim_types)) whole
      else Inr unset)"

text \<open>\<open>np.asarray(['present' in fname for fname in x], dtype=int)\<close>\<close>

definition labels :: "string list \<Rightarrow> int list" where
  "labels x = map (\<lambda>fname. if str_in ''present'' fname then 1 else 0) x"

text \<open>
  Lines 233 to 270: the labels and the dictionary. Building the dictionary reads
  \<open>stim_type_vec_val\<close>, which is unbound when there is no validation set.
\<close>

definition make_dict ::
  "int option \<Rightarrow> vars \<Rightarrow> (string \<times> int list) list \<Rightarrow> error + data_dict" where
  "make_dict val_size v set_sizes =
     (let y_train = labels (x_train v) in
      bindE (if truthy val_size
             then (case x_val v of None \<Rightarrow> Inl TypeError | Some xv \<Rightarrow> Inr (Some (labels xv)))
             else Inr None)
        (\<lambda>y_val.
      let y_test = labels (x_test v) in
      (case stim_type_vec_val v of
         None \<Rightarrow> Inl UnboundLocalError
       | Some tv \<Rightarrow>
           Inr \<lparr>x_train = x_train v,
                set_size_vec_train = set_size_vec_train v,
                stim_type_vec_train = stim_type_vec_train v,
                x_val = x_val v,
                set_size_vec_val = set_size_vec_val v,
                stim_type_vec_val = Some tv,
                x_test = x_test v,
                set_size_vec_test = set_size_vec_test v,
                stim_type_vec_test = stim_type_vec_test v,
                y_train = y_train, y_val = y_val, y_test = y_test,
                set_sizes_by_stim_stype = set_sizes\<rparr>)))"

text \<open>Lines 84 to 100: the accumulators before the loops.\<close>

definition init_vars :: "int option \<Rightarrow> vars" where
  "init_vars val_size =
     \<lparr>x_train = [], set_size_vec_train = [], stim_type_vec_train = [],
      x_val = (if truthy val_size then Some [] else None),
      set_size_vec_val = (if truthy val_size then Some [] else None),
      stim_type_vec_val = (if truthy val_size then Some [] else None),
      x_test = [], set_size_vec_test = [], stim_type_vec_test = []\<rparr>"

text \<open>
  The function. \<open>fname_json\<close> is what the \<open>glob\<close> for \<open>*.json\<close> finds in
  \<open>train_dir\<close>, each file given by its parsed content; \<open>g\<close> is the state of the
  random generator when the function is called. The result is the dictionary written
  to \<open>gz_filename\<close>, with the state the generator is left in.
\<close>

definition data ::
  "'g shuffle \<Rightarrow> 'g \<Rightarrow> fnames_dict list \<Rightarrow> int \<Rightarrow> int option \<Rightarrow> int option
     \<Rightarrow> error + (data_dict \<times> 'g)" where
  "data shuffle g fname_json train_size val_size test_size =
     (if fname_json = [] then Inl ValueError
      else if 1 < length fname_json then Inl ValueError
      else
        let fnames_dict = hd fname_json;
            v = init_vars val_size;
            num_stim_types = length fnames_dict
        in
        bindE (bindE (true_div (real_of_int train_size) (real num_stim_types)) whole)
          (\<lambda>train_size_per_stim_type.
        bindE (size_per_stim_type val_size num_stim_types 0)
          (\<lambda>val_size_per_stim_type.
        bindE (size_per_stim_type test_size num_stim_types (- 1))
          (\<lambda>test_size_per_stim_type.
        bindE (foldE (per_stim_type shuffle train_size_per_stim_type val_size
                        val_size_per_stim_type test_size test_size_per_stim_type)
                     fnames_dict (v, [], g))
          (\<lambda>(v, set_sizes_by_stim_stype, g).
        bindE (make_dict val_size v set_sizes_by_stim_stype)
          (\<lambda>data_dict. Inr (data_dict, g)))))))"

text \<open>
  A shuffle to run the model with: the generator state is a counter, and the list is
  rotated by it.
\<close>

definition rotate_shuffle :: "nat shuffle" where
  "rotate_shuffle g inds = (rotate g inds, Suc g)"


text \<open>
  A manifest to run the model on: one stimulus type, set sizes 1 and 2, three files in
  each of the four leaf pools.
\<close>

definition pool :: "string \<Rightarrow> string list \<Rightarrow> stim_info list" where
  "pool dir names = map (\<lambda>name. \<lparr>filename = dir @ name\<rparr>) names"

definition manifest_a :: fnames_dict where
  "manifest_a =
     [(''rvg'', [(1, [(''present'', pool ''1/present/'' [''a'', ''b'', ''c'']),
                       (''absent'', pool ''1/absent/'' [''a'', ''b'', ''c''])]),
                 (2, [(''present'', pool ''2/present/'' [''a'', ''b'', ''c'']),
                       (''absent'', pool ''2/absent/'' [''a'', ''b'', ''c''])])])]"

text \<open>
  The dictionary written for \<open>manifest_a\<close> with \<open>train_size = 4\<close>, \<open>val_size = 4\<close>,
  no \<open>test_size\<close>, and the rotating shuffle started at 0.
\<close>

definition bundle_a :: data_dict where
  "bundle_a =
     \<lparr>x_train = [''1/present/c'', ''1/absent/a'', ''2/present/b'', ''2/absent/c''],
      set_size_vec_train = [1, 1, 2, 2],
      stim_type_vec_train =
        [''rvg'', ''rvg'', ''rvg'', ''rvg'', ''rvg'', ''rvg'', ''rvg'', ''rvg''],
      x_val = Some [''1/present/b'', ''1/absent/c'', ''2/present/a'', ''2/absent/b''],
      set_size_vec_val = Some [1, 1, 2, 2],
      stim_type_vec_val = Some [''rvg'', ''rvg'', ''rvg'', ''rvg''],
      x_test = [''1/present/a'', ''1/absent/b'', ''2/present/c'', ''2/absent/a''],
      set_size_vec_test = [1, 1, 2, 2],
      stim_type_vec_test = [],
      y_train = [1, 0, 1, 0], y_val = Some [1, 0, 1, 0], y_test = [1, 0, 1, 0],
      set_sizes_by_stim_stype = [(''rvg'', [1, 2])]\<rparr>"

subsection \<open>Notions for stating the properties of the partitioner\<close>

text \<open>
  What \<open>random.shuffle\<close> guarantees: the shuffled list is a permutation of the list.
\<close>

definition permuting :: "'g shuffle \<Rightarrow> bool" where
  "permuting shuffle = (\<forall>g inds. mset (fst (shuffle g inds)) = mset inds)"

text \<open>All filenames of a manifest, in the order of the loops.\<close>

definition pools_of :: "stim_info_by_set_size \<Rightarrow> string list list" where
  "pools_of stim_info_by_set_size =
     concat (map (\<lambda>(set_size, present_absent_dict).
                    map (\<lambda>(present_or_absent, stim_info_list). map filename stim_info_list)
                        present_absent_dict)
                 stim_info_by_set_size)"

definition filenames_of :: "fnames_dict \<Rightarrow> string list" where
  "filenames_of fnames_dict =
     concat (map (\<lambda>(stim_type, stim_info_by_set_size). concat (pools_of stim_info_by_set_size))
                 fnames_dict)"

text \<open>
  Every set size of every stimulus type has the two presence states, \<open>present\<close> and
  \<open>absent\<close>, as in the manifests the stimulus generator writes.
\<close>

definition two_presence_states :: "fnames_dict \<Rightarrow> bool" where
  "two_presence_states fnames_dict =
     list_all (\<lambda>(stim_type, stim_info_by_set_size).
        list_all (\<lambda>(set_size, present_absent_dict).
           length present_absent_dict = 2
           \<and> set (map fst present_absent_dict) = {''present'', ''absent''})
          stim_info_by_set_size)
       fnames_dict"

text \<open>How many entries of a split come from a leaf pool.\<close>

definition count_from :: "stim_info list \<Rightarrow> string list \<Rightarrow> nat" where
  "count_from stim_info_list x =
     length (filter (\<lambda>fname. fname \<in> set (map filename stim_info_list)) x)"

text \<open>The validation files of a bundle: none when \<open>x_val\<close> is \<open>None\<close>.\<close>

definition val_files :: "data_dict \<Rightarrow> string list" where
  "val_files b = (case x_val b of None \<Rightarrow> [] | Some xv \<Rightarrow> xv)"

text \<open>
  What one pass of the innermost loop draws from its pool: the files for the training,
  validation and test sets. \<open>extends v v' d\<close> says that the accumulators \<open>v'\<close> are
  \<open>v\<close> with the draw \<open>d\<close> appended; \<open>cat3\<close> joins draws; \<open>drawn\<close> is what a
  successful pass guarantees about its draw.
\<close>

type_synonym draw = "string list \<times> string list \<times> string list"

definition extends :: "vars \<Rightarrow> vars \<Rightarrow> draw \<Rightarrow> bool" where
  "extends v v' d =
     (x_train v' = x_train v @ fst d
      \<and> x_val v' = map_option (\<lambda>xs. xs @ fst (snd d)) (x_val v)
      \<and> x_test v' = x_test v @ snd (snd d)
      \<and> (stim_type_vec_val v' = None) = (stim_type_vec_val v = None)
      \<and> (x_val v' = None) = (x_val v = None))"

definition cat3 :: "draw list \<Rightarrow> draw" where
  "cat3 ds = (concat (map fst ds), concat (map (fst \<circ> snd) ds), concat (map (snd \<circ> snd) ds))"

definition drawn :: "bool \<Rightarrow> int \<Rightarrow> int \<Rightarrow> int \<Rightarrow> string list \<Rightarrow> draw \<Rightarrow> bool" where
  "drawn perm train_n val_n test_n stim_fnames d =
     (case d of (tr, va, te) \<Rightarrow>
        1 \<le> train_n \<and> length tr = nat train_n \<and> length va = nat val_n \<and> te \<noteq> []
      \<and> (if 0 < test_n then length te = nat test_n else test_n = - 1)
      \<and> set tr \<union> set va \<union> set te \<subseteq> set stim_fnames
      \<and> (if perm then
            (if distinct stim_fnames then distinct (tr @ va @ te) else True)
          \<and> (if test_n = - 1 then length tr + length va + length te = length stim_fnames
              else True)
          else True))"

text \<open>
  What a successful pass of the loop over the stimulus types guarantees for one
  stimulus type: the three sizes per set size are whole, and every leaf pool of the
  stimulus type has its draw.
\<close>

definition entry_drawn ::
  "bool \<Rightarrow> int \<Rightarrow> int option \<Rightarrow> int \<Rightarrow> int option \<Rightarrow> int
     \<Rightarrow> string \<times> stim_info_by_set_size \<Rightarrow> draw list \<Rightarrow> bool" where
  "entry_drawn perm train_size_per_stim_type val_size val_size_per_stim_type
       test_size test_size_per_stim_type entry ds =
     (\<exists>train_n val_n test_n.
        size_per_set_size train_size_per_stim_type (length (snd entry)) = Inr train_n
      \<and> (if truthy val_size
          then size_per_set_size val_size_per_stim_type (length (snd entry)) = Inr val_n
          else val_n = 0)
      \<and> (if test_size = None \<or> test_size = Some (- 1) then test_n = - 1
          else 0 < the test_size
             \<and> size_per_set_size test_size_per_stim_type (length (snd entry)) = Inr test_n)
      \<and> list_all2 (drawn perm train_n val_n test_n) (pools_of (snd entry)) ds)"

text \<open>
  Two generators, each with its shuffle, yield the same shuffles from related states:
  from related states every list is shuffled to the same list, and the next states are
  related again. From equal states one generator is so related to itself.
\<close>

definition same_shuffles :: "('g \<Rightarrow> 'h \<Rightarrow> bool) \<Rightarrow> 'g shuffle \<Rightarrow> 'h shuffle \<Rightarrow> bool" where
  "same_shuffles R shuffle shuffle' =
     (\<forall>g h inds. R g h \<longrightarrow>
        fst (shuffle g inds) = fst (shuffle' h inds)
        \<and> R (snd (shuffle g inds)) (snd (shuffle' h inds)))"




text \<open>
  What holds of the tag vectors in every bundle: the set-size vectors are parallel to the
  file lists, and so is \<open>stim_type_vec_val\<close>; \<open>stim_type_vec_test\<close> is empty although
  \<open>x_test\<close> never is, and \<open>stim_type_vec_train\<close> has one entry for each training file
  and one more for each test file.
\<close>

definition tags_as_written :: "'a vars_scheme \<Rightarrow> bool" where
  "tags_as_written v =
     (length (set_size_vec_train v) = length (x_train v)
      \<and> length (set_size_vec_test v) = length (x_test v)
      \<and> map_option length (set_size_vec_val v) = map_option length (x_val v)
      \<and> map_option length (stim_type_vec_val v) = map_option length (x_val v)
      \<and> stim_type_vec_test v = []
      \<and> length (stim_type_vec_train v) = length (x_train v) + length (x_test v))"

section \<open>Basic facts about the error monad and loops\<close>

lemma bindE_simps [simp]:
  "bindE (Inl e) f = Inl e"
  "bindE (Inr x) f = f x"
  by (simp_all add: bindE_def)

lemma bindE_Inr_iff: "bindE m f = Inr y \<longleftrightarrow> (\<exists>x. m = Inr x \<and> f x = Inr y)"
  by (cases m) simp_all

lemma bindE_InrE:
  assumes "bindE m f = Inr y"
  obtains x where "m = Inr x" "f x = Inr y"
  using assms by (auto simp: bindE_Inr_iff)

lemma foldE_invariant:
  assumes "foldE f xs s = Inr s'" and "I s"
    and "\<And>x s s'. x \<in> set xs \<Longrightarrow> I s \<Longrightarrow> f x s = Inr s' \<Longrightarrow> I s'"
  shows "I s'"
  using assms
proof (induction xs arbitrary: s)
  case Nil
  then show ?case by simp
next
  case (Cons x xs)
  from Cons.prems(1) obtain s1 where s1: "f x s = Inr s1" "foldE f xs s1 = Inr s'"
    by (auto simp: bindE_Inr_iff)
  have "I s1" using Cons.prems(3)[of x s s1] Cons.prems(2) s1(1) by simp
  then show ?case
    by (rule Cons.IH[OF s1(2)]) (use Cons.prems(3) in auto)
qed

section \<open>The standard normal distribution function\<close>

lemma gauss_coeff_odd: "gauss_coeff (2 * n + 1) * x ^ (2 * n + 1) = (- 1) ^ n * gauss_term x n"
  by (simp add: gauss_coeff_def gauss_term_def power_mult power_divide)

lemma gauss_term_le: "\<bar>gauss_term x n\<bar> \<le> \<bar>x\<bar> * (inverse (fact n) * (x\<^sup>2 / 2) ^ n)"

proof -
  have "\<bar>gauss_term x n\<bar> = \<bar>x\<bar> * (inverse (fact n) * (x\<^sup>2 / 2) ^ n) / real (2 * n + 1)"
    by (simp add: gauss_term_def abs_mult power_abs field_simps)
  also have "\<dots> \<le> \<bar>x\<bar> * (inverse (fact n) * (x\<^sup>2 / 2) ^ n) / 1"
    by (rule divide_left_mono) (simp_all add: zero_le_mult_iff)
  finally show ?thesis by simp

qed

lemma summable_gauss_term_abs: "summable (\<lambda>n. \<bar>gauss_term x n\<bar>)"

proof (rule summable_comparison_test')
  show "summable (\<lambda>n. \<bar>x\<bar> * (inverse (fact n) * (x\<^sup>2 / 2) ^ n))"
    by (rule summable_mult) (rule summable_exp)
  show "norm \<bar>gauss_term x n\<bar> \<le> \<bar>x\<bar> * (inverse (fact n) * (x\<^sup>2 / 2) ^ n)" for n
    using gauss_term_le [of x n] by simp

qed

lemma summable_gauss_alt: "summable (\<lambda>n. (- 1) ^ n * gauss_term x n)"

proof (rule summable_rabs_cancel)
  show "summable (\<lambda>n. \<bar>(- 1) ^ n * gauss_term x n\<bar>)"
    using summable_gauss_term_abs [of x] by (simp add: abs_mult power_abs)

qed

lemma strict_mono_odd: "strict_mono (\<lambda>n::nat. 2 * n + 1)"
  by (simp add: strict_mono_def)

lemma gauss_coeff_off: "k \<notin> range (\<lambda>n::nat. 2 * n + 1) \<Longrightarrow> gauss_coeff k * x ^ k = 0"

proof -
  assume k: "k \<notin> range (\<lambda>n::nat. 2 * n + 1)"
  have "\<not> odd k"
  proof
    assume "odd k"
    then obtain n where "k = 2 * n + 1" by (auto elim: oddE)
    with k show False by auto
  qed
  then show ?thesis by (simp add: gauss_coeff_def)

qed

lemma gauss_sums: "(\<lambda>k. gauss_coeff k * x ^ k) sums (\<Sum>n. (- 1) ^ n * gauss_term x n)"

proof -
  have "(\<lambda>n. (- 1) ^ n * gauss_term x n) sums (\<Sum>n. (- 1) ^ n * gauss_term x n)"
    using summable_gauss_alt by (rule summable_sums)
  then have "(\<lambda>n. gauss_coeff (2 * n + 1) * x ^ (2 * n + 1)) sums (\<Sum>n. (- 1) ^ n * gauss_term x n)"
    by (simp only: gauss_coeff_odd)
  moreover have "(\<lambda>n. gauss_coeff (2 * n + 1) * x ^ (2 * n + 1)) sums c \<longleftrightarrow> (\<lambda>k. gauss_coeff k * x ^ k) sums c" for c
    by (rule sums_mono_reindex [OF strict_mono_odd]) (rule gauss_coeff_off)
  ultimately show ?thesis by simp

qed

lemma summable_gauss: "summable (\<lambda>k. gauss_coeff k * x ^ k)"
  using gauss_sums by (rule sums_summable)

lemma gauss_series_alt: "gauss_series x = (\<Sum>n. (- 1) ^ n * gauss_term x n)"
  unfolding gauss_series_def using gauss_sums by (rule sums_unique [symmetric])

lemma strict_mono_even: "strict_mono (\<lambda>n::nat. 2 * n)"
  by (simp add: strict_mono_def)

lemma diffs_gauss_even: "diffs gauss_coeff (2 * n) * x ^ (2 * n) = (- (x\<^sup>2 / 2)) ^ n /\<^sub>R fact n"

proof -
  have d: "diffs gauss_coeff (2 * n) = (- 1) ^ n / (2 ^ n * fact n)"
    by (simp add: diffs_def gauss_coeff_def)
  have p: "(- (x\<^sup>2 / 2)) ^ n = (- 1) ^ n * (x ^ (2 * n) / 2 ^ n)"
  proof -
    have "(- (x\<^sup>2 / 2)) ^ n = ((- 1) * (x\<^sup>2 / 2)) ^ n" by simp
    also have "\<dots> = (- 1) ^ n * (x\<^sup>2 / 2) ^ n" by (rule power_mult_distrib)
    also have "(x\<^sup>2 / 2) ^ n = x ^ (2 * n) / 2 ^ n" by (simp add: power_divide power_mult)
    finally show ?thesis .
  qed
  show ?thesis
    unfolding d p real_scaleR_def by (simp add: field_simps)

qed

lemma diffs_gauss_off: "k \<notin> range (\<lambda>n::nat. 2 * n) \<Longrightarrow> diffs gauss_coeff k * x ^ k = 0"

proof -
  assume k: "k \<notin> range (\<lambda>n::nat. 2 * n)"
  have "\<not> even k"
  proof
    assume "even k"
    then obtain n where "k = 2 * n" by (auto elim: evenE)
    with k show False by auto
  qed
  then show ?thesis by (simp add: diffs_def gauss_coeff_def)

qed

lemma diffs_gauss_sums: "(\<lambda>k. diffs gauss_coeff k * x ^ k) sums exp (- (x\<^sup>2 / 2))"

proof -
  have "(\<lambda>n. (- (x\<^sup>2 / 2)) ^ n /\<^sub>R fact n) sums exp (- (x\<^sup>2 / 2))"
    by (rule exp_converges)
  then have "(\<lambda>n. diffs gauss_coeff (2 * n) * x ^ (2 * n)) sums exp (- (x\<^sup>2 / 2))"
    by (simp only: diffs_gauss_even)
  moreover have "(\<lambda>n. diffs gauss_coeff (2 * n) * x ^ (2 * n)) sums c \<longleftrightarrow> (\<lambda>k. diffs gauss_coeff k * x ^ k) sums c" for c
    by (rule sums_mono_reindex [OF strict_mono_even]) (rule diffs_gauss_off)
  ultimately show ?thesis by simp

qed

lemma DERIV_gauss_series: "DERIV gauss_series x :> exp (- (x\<^sup>2 / 2))"

proof -
  have "((\<lambda>x. \<Sum>n. gauss_coeff n * x ^ n) has_field_derivative (\<Sum>n. diffs gauss_coeff n * x ^ n)) (at x)"
    by (rule termdiffs_strong_converges_everywhere) (rule summable_gauss)
  moreover have "(\<Sum>n. diffs gauss_coeff n * x ^ n) = exp (- (x\<^sup>2 / 2))"
    using diffs_gauss_sums by (rule sums_unique [symmetric])
  moreover have "(\<lambda>x. \<Sum>n. gauss_coeff n * x ^ n) = gauss_series"
    by (rule ext) (simp add: gauss_series_def)
  ultimately show ?thesis by simp

qed

lemma gauss_series_strict_mono:
  assumes "a < b"
  shows "gauss_series a < gauss_series b"

proof -
  have pos: "\<exists>y. DERIV gauss_series x :> y \<and> 0 < y" for x
    by (rule exI [of _ "exp (- (x\<^sup>2 / 2))"]) (simp add: DERIV_gauss_series)
  from assms show ?thesis
    by (rule DERIV_pos_imp_increasing) (rule pos)

qed

lemma gauss_series_minus: "gauss_series (- x) = - gauss_series x"

proof -
  have "gauss_term (- x) n = - gauss_term x n" for n
    by (simp add: gauss_term_def)
  then have "gauss_series (- x) = (\<Sum>n. - ((- 1) ^ n * gauss_term x n))"
    by (simp add: gauss_series_alt)
  also have "\<dots> = - (\<Sum>n. (- 1) ^ n * gauss_term x n)"
    by (rule suminf_minus) (rule summable_gauss_alt)
  finally show ?thesis by (simp add: gauss_series_alt)

qed

lemma continuous_on_gauss_series: "continuous_on A gauss_series"
  by (rule DERIV_continuous_on) (rule DERIV_gauss_series [THEN DERIV_subset, OF subset_UNIV])

lemma gauss_term_nonneg: "0 \<le> x \<Longrightarrow> 0 \<le> gauss_term x n"
  by (simp add: gauss_term_def)

lemma gauss_term_decreasing:
  assumes "0 \<le> x" "x \<le> 1"
  shows "gauss_term x (Suc n) \<le> gauss_term x n"

proof -
  have "x\<^sup>2 \<le> 1"
    using assms by (rule power_le_one)
  then have x2: "x\<^sup>2 / 2 \<le> 1"
    by simp
  have "gauss_term x (Suc n) = (x * (x\<^sup>2 / 2) ^ n / fact n) * ((x\<^sup>2 / 2) / (real (Suc n) * real (2 * n + 3)))"
    by (simp add: gauss_term_def mult_ac add_ac)
  also have "\<dots> \<le> (x * (x\<^sup>2 / 2) ^ n / fact n) * (1 / real (2 * n + 1))"
  proof (rule mult_left_mono)
    have "(x\<^sup>2 / 2) / (real (Suc n) * real (2 * n + 3)) \<le> 1 / (real (Suc n) * real (2 * n + 3))"
      using x2 by (intro divide_right_mono) simp_all
    also have "\<dots> \<le> 1 / real (2 * n + 1)"
    proof (rule frac_le)
      have "2 * n + 1 \<le> Suc n * (2 * n + 3)" by simp
      then have "real (2 * n + 1) \<le> real (Suc n * (2 * n + 3))" by (rule of_nat_mono)
      then show "real (2 * n + 1) \<le> real (Suc n) * real (2 * n + 3)" by (simp only: of_nat_mult)
    qed simp_all
    finally show "(x\<^sup>2 / 2) / (real (Suc n) * real (2 * n + 3)) \<le> 1 / real (2 * n + 1)" .
    show "0 \<le> x * (x\<^sup>2 / 2) ^ n / fact n"
      using assms by simp
  qed
  also have "\<dots> = gauss_term x n"
    by (simp add: gauss_term_def)
  finally show ?thesis .

qed

lemma gauss_term_tendsto_0: "gauss_term x \<longlonglongrightarrow> 0"

proof -
  have "(\<lambda>n. \<bar>gauss_term x n\<bar>) \<longlonglongrightarrow> 0"
    using summable_gauss_term_abs by (rule summable_LIMSEQ_zero)
  then show ?thesis
    by (rule tendsto_rabs_zero_cancel)

qed

lemma gauss_series_bounds:
  assumes "0 \<le> x" "x \<le> 1"
  shows "(\<Sum>i<2 * n. (- 1) ^ i * gauss_term x i) \<le> gauss_series x"
    and "gauss_series x \<le> (\<Sum>i<2 * n + 1. (- 1) ^ i * gauss_term x i)"

proof -
  show "(\<Sum>i<2 * n. (- 1) ^ i * gauss_term x i) \<le> gauss_series x"
    unfolding gauss_series_alt
    by (rule summable_Leibniz'(2) [where a = "gauss_term x", OF gauss_term_tendsto_0 gauss_term_nonneg [OF assms(1)] gauss_term_decreasing [OF assms]])
  show "gauss_series x \<le> (\<Sum>i<2 * n + 1. (- 1) ^ i * gauss_term x i)"
    unfolding gauss_series_alt
    by (rule summable_Leibniz'(4) [where a = "gauss_term x", OF gauss_term_tendsto_0 gauss_term_nonneg [OF assms(1)] gauss_term_decreasing [OF assms]])

qed

lemma arctan_term_decreasing:
  fixes x :: real
  assumes "0 \<le> x" "x \<le> 1"
  shows "1 / real (Suc k * 2 + 1) * x ^ (Suc k * 2 + 1) \<le> 1 / real (k * 2 + 1) * x ^ (k * 2 + 1)"

proof (rule mult_mono)
  show "1 / real (Suc k * 2 + 1) \<le> 1 / real (k * 2 + 1)"
    by (intro divide_left_mono) simp_all
  show "x ^ (Suc k * 2 + 1) \<le> x ^ (k * 2 + 1)"
    using assms by (intro power_decreasing) simp_all
  show "0 \<le> 1 / real (k * 2 + 1)" by simp
  show "0 \<le> x ^ (Suc k * 2 + 1)" using assms by simp

qed

lemma arctan_bounds:
  fixes x :: real
  assumes "0 \<le> x" "x \<le> 1"
  shows "(\<Sum>i<2 * n. (- 1) ^ i * (1 / real (i * 2 + 1) * x ^ (i * 2 + 1))) \<le> arctan x"
    and "arctan x \<le> (\<Sum>i<2 * n + 1. (- 1) ^ i * (1 / real (i * 2 + 1) * x ^ (i * 2 + 1)))"

proof -
  have abs: "\<bar>x\<bar> \<le> 1" using assms by simp
  have pos: "0 \<le> 1 / real (k * 2 + 1) * x ^ (k * 2 + 1)" for k
    using assms by simp
  note L = summable_Leibniz' [where a = "\<lambda>k. 1 / real (k * 2 + 1) * x ^ (k * 2 + 1)", OF zeroseq_arctan_series [OF abs] pos arctan_term_decreasing [OF assms]]
  show "(\<Sum>i<2 * n. (- 1) ^ i * (1 / real (i * 2 + 1) * x ^ (i * 2 + 1))) \<le> arctan x"
    unfolding arctan_series [OF abs] by (rule L(2))
  show "arctan x \<le> (\<Sum>i<2 * n + 1. (- 1) ^ i * (1 / real (i * 2 + 1) * x ^ (i * 2 + 1)))"
    unfolding arctan_series [OF abs] by (rule L(4))

qed

lemma arctan_fifth_bounds:
  "16 * arctan (1 / 5) > 3.158328" "16 * arctan (1 / 5) < 3.158329"

proof -
  have "(\<Sum>i<2 * 2. (- 1) ^ i * (1 / real (i * 2 + 1) * (1 / 5) ^ (i * 2 + 1))) \<le> arctan (1 / 5)"
    by (rule arctan_bounds) simp_all
  then show "16 * arctan (1 / 5) > 3.158328"
    by (simp add: eval_nat_numeral; linarith)
  have "arctan (1 / 5) \<le> (\<Sum>i<2 * 2 + 1. (- 1) ^ i * (1 / real (i * 2 + 1) * (1 / 5) ^ (i * 2 + 1)))"
    by (rule arctan_bounds) simp_all
  then show "16 * arctan (1 / 5) < 3.158329"
    by (simp add: eval_nat_numeral; linarith)

qed

lemma arctan_239_bounds:
  "4 * arctan (1 / 239) > 0.016736304" "4 * arctan (1 / 239) < 0.016736402"

proof -
  have "(\<Sum>i<2 * 1. (- 1) ^ i * (1 / real (i * 2 + 1) * (1 / 239) ^ (i * 2 + 1))) \<le> arctan (1 / 239)"
    by (rule arctan_bounds) simp_all
  then show "4 * arctan (1 / 239) > 0.016736304"
    by (simp add: eval_nat_numeral; linarith)
  have "arctan (1 / 239) \<le> (\<Sum>i<2 * 0 + 1. (- 1) ^ i * (1 / real (i * 2 + 1) * (1 / 239) ^ (i * 2 + 1)))"
    by (rule arctan_bounds) simp_all
  then show "4 * arctan (1 / 239) < 0.016736402"
    by (simp add: eval_nat_numeral; linarith)

qed

lemma pi_bounds: "3.14159 < pi" "pi < 3.1416"

proof -
  have m: "pi = 16 * arctan (1 / 5) - 4 * arctan (1 / 239)"
    using machin by simp
  show "3.14159 < pi"
    using m arctan_fifth_bounds(1) arctan_239_bounds(2) by simp
  show "pi < 3.1416"
    using m arctan_fifth_bounds(2) arctan_239_bounds(1) by simp

qed

lemma gauss_series_0: "gauss_series 0 = 0"

proof -
  have "gauss_series (- 0) = - gauss_series 0" by (rule gauss_series_minus)
  then show ?thesis by simp

qed

lemma norm_cdf_0: "norm_cdf 0 = 1 / 2"
  by (simp add: norm_cdf_def gauss_series_0)

lemma DERIV_norm_cdf: "DERIV norm_cdf x :> exp (- (x\<^sup>2 / 2)) / sqrt (2 * pi)"

proof -
  have "DERIV (\<lambda>x. 1 / 2 + gauss_series x / sqrt (2 * pi)) x :> 0 + exp (- (x\<^sup>2 / 2)) / sqrt (2 * pi)"
    by (intro DERIV_add DERIV_const DERIV_cdivide DERIV_gauss_series)
  moreover have "(\<lambda>x. 1 / 2 + gauss_series x / sqrt (2 * pi)) = norm_cdf"
    by (rule ext) (simp add: norm_cdf_def)
  ultimately show ?thesis by simp

qed

lemma norm_cdf_strict_mono:
  assumes "a < b"
  shows "norm_cdf a < norm_cdf b"

proof -
  have "gauss_series a / sqrt (2 * pi) < gauss_series b / sqrt (2 * pi)"
    using gauss_series_strict_mono [OF assms] by (simp add: divide_strict_right_mono)
  then show ?thesis by (simp add: norm_cdf_def)

qed

lemma norm_cdf_inj: "norm_cdf a = norm_cdf b \<Longrightarrow> a = b"
  using norm_cdf_strict_mono [of a b] norm_cdf_strict_mono [of b a]
  by (cases a b rule: linorder_cases) simp_all

lemma norm_cdf_less_iff: "norm_cdf a < norm_cdf b \<longleftrightarrow> a < b"
  using norm_cdf_strict_mono [of a b] norm_cdf_strict_mono [of b a]
  by (cases a b rule: linorder_cases) auto

lemma norm_cdf_minus: "norm_cdf (- x) = 1 - norm_cdf x"
  by (simp add: norm_cdf_def gauss_series_minus)

lemma continuous_on_norm_cdf: "continuous_on A norm_cdf"
  unfolding norm_cdf_def [abs_def]
  by (intro continuous_intros continuous_on_gauss_series) simp

lemma norm_quantile_eq: "norm_cdf x = p \<Longrightarrow> norm_quantile p = x"
  unfolding norm_quantile_def by (rule the_equality) (auto dest: norm_cdf_inj)

lemma norm_cdf_below:
  assumes x: "0 \<le> x" "x \<le> 1"
    and u: "gauss_series x \<le> u"
    and b: "18 * u\<^sup>2 < 3.14159"
  shows "norm_cdf x < 2 / 3"

proof -
  have "0 \<le> gauss_series x"
    using gauss_series_strict_mono [of 0 x] x(1) by (cases "x = 0") (simp_all add: gauss_series_0)
  then have "(6 * gauss_series x)\<^sup>2 \<le> (6 * u)\<^sup>2"
    using u by (intro power_mono) simp_all
  also have "\<dots> < 2 * pi"
    using b pi_bounds(1) by (simp add: power_mult_distrib)
  finally have "6 * gauss_series x < sqrt (2 * pi)"
    by (rule real_less_rsqrt)
  then have "gauss_series x / sqrt (2 * pi) < 1 / 6"
    by (simp add: field_simps)
  then show ?thesis unfolding norm_cdf_def by linarith

qed

lemma norm_cdf_above:
  assumes l: "l \<le> gauss_series x" "0 \<le> l"
    and b: "3.1416 < 18 * l\<^sup>2"
  shows "2 / 3 < norm_cdf x"

proof -
  have "2 * pi < (6 * l)\<^sup>2"
    using b pi_bounds(2) by (simp add: power_mult_distrib)
  also have "\<dots> \<le> (6 * gauss_series x)\<^sup>2"
    using l by (intro power_mono) simp_all
  finally have "sqrt (2 * pi) < 6 * gauss_series x"
    using l by (intro real_less_lsqrt) simp_all
  then have "1 / 6 < gauss_series x / sqrt (2 * pi)"
    by (simp add: field_simps)
  then show ?thesis unfolding norm_cdf_def by linarith

qed

lemma norm_cdf_lo: "norm_cdf 0.430725 < 2 / 3"

proof (rule norm_cdf_below)
  show "gauss_series 0.430725 \<le> (\<Sum>i<2 * 2 + 1. (- 1) ^ i * gauss_term 0.430725 i)"
    by (rule gauss_series_bounds) simp_all
  show "18 * (\<Sum>i<2 * 2 + 1. (- 1) ^ i * gauss_term 0.430725 i)\<^sup>2 < 3.14159"
    by (simp add: eval_nat_numeral gauss_term_def)

qed simp_all

lemma norm_cdf_hi: "2 / 3 < norm_cdf 0.43073"

proof (rule norm_cdf_above)
  show "(\<Sum>i<2 * 2. (- 1) ^ i * gauss_term 0.43073 i) \<le> gauss_series 0.43073"
    by (rule gauss_series_bounds) simp_all
  show "0 \<le> (\<Sum>i<2 * 2. (- 1) ^ i * gauss_term 0.43073 i)"
    by (simp add: eval_nat_numeral gauss_term_def)
  show "3.1416 < 18 * (\<Sum>i<2 * 2. (- 1) ^ i * gauss_term 0.43073 i)\<^sup>2"
    by (simp add: eval_nat_numeral gauss_term_def)

qed

lemma norm_quantile_two_thirds:
  "norm_cdf (norm_quantile (2 / 3)) = 2 / 3"
  "0.430725 < norm_quantile (2 / 3)" "norm_quantile (2 / 3) < 0.43073"

proof -
  have "\<exists>x\<ge>0.430725. x \<le> 0.43073 \<and> norm_cdf x = 2 / 3"
    using norm_cdf_lo norm_cdf_hi
    by (intro IVT' continuous_on_norm_cdf) simp_all
  then obtain x :: real where x: "0.430725 \<le> x" "x \<le> 0.43073" "norm_cdf x = 2 / 3"
    by blast
  have q: "norm_quantile (2 / 3) = x"
    using x(3) by (rule norm_quantile_eq)
  show "norm_cdf (norm_quantile (2 / 3)) = 2 / 3"
    using x(3) q by simp
  have "norm_cdf 0.430725 < norm_cdf x"
    using norm_cdf_lo unfolding x(3) .
  then show "0.430725 < norm_quantile (2 / 3)"
    unfolding q by (simp only: norm_cdf_less_iff)
  have "norm_cdf x < norm_cdf 0.43073"
    using norm_cdf_hi unfolding x(3) .
  then show "norm_quantile (2 / 3) < 0.43073"
    unfolding q by (simp only: norm_cdf_less_iff)

qed

lemma norm_quantile_one_third: "norm_quantile (1 / 3) = - norm_quantile (2 / 3)"

proof (rule norm_quantile_eq)
  show "norm_cdf (- norm_quantile (2 / 3)) = 1 / 3"
    by (simp add: norm_cdf_minus norm_quantile_two_thirds(1))

qed

lemma d_prime_example_bounds:
  "0.86145 < norm_quantile (2 / 3) - norm_quantile (1 / 3)"
  "norm_quantile (2 / 3) - norm_quantile (1 / 3) < 0.86146"
  using norm_quantile_two_thirds(2,3) by (simp_all add: norm_quantile_one_third)

section \<open>Properties of \<open>compute_d_prime\<close>\<close>

text \<open>
  The worked example \<open>y_true = [1,1,1,0,0,0]\<close>, \<open>y_pred = [1,1,0,0,1,0]\<close>, for any quantile
  function \<open>z_score\<close>: the four counts, the two rates and the position of the results.
\<close>

lemma compute_d_prime_example:
  "logical_and_sum 1 1 [1,1,0,0,1,0] [1,1,1,0,0,0] = Inr 2
   \<and> logical_and_sum 0 1 [1,1,0,0,1,0] [1,1,1,0,0,0] = Inr 1
   \<and> logical_and_sum 1 0 [1,1,0,0,1,0] [1,1,1,0,0,0] = Inr 1
   \<and> logical_and_sum 0 0 [1,1,0,0,1,0] [1,1,1,0,0,0] = Inr 2
   \<and> compute_d_prime z_score [1,1,1,0,0,0] [1,1,0,0,1,0]
       = Inr (Finite (2/3), Finite (1/3), fsub (z_score (Finite (2/3))) (z_score (Finite (1/3))))"
  by (simp add: compute_d_prime_def logical_and_sum_def broadcast_def fdiv_def Let_def)

lemma norm_ppf_example:
  "fsub (norm_ppf (Finite (2/3))) (norm_ppf (Finite (1/3)))
   = Finite (norm_quantile (2/3) - norm_quantile (1/3))"
  by (simp add: norm_ppf_def)

text \<open>
  C6. With \<open>norm.ppf\<close> for \<open>z_score\<close> the third result on the worked
  example is the inverse standard-normal distribution function of 2/3 minus that of 1/3,
  as claimed, but this number is not approximately 0.9539: it is smaller by more than 0.09.
\<close>

theorem compute_d_prime_example_not_0_9539:
  "compute_d_prime norm_ppf [1,1,1,0,0,0] [1,1,0,0,1,0]
     = Inr (Finite (2/3), Finite (1/3), Finite (norm_quantile (2/3) - norm_quantile (1/3)))
   \<and> 0.09 < 0.9539 - (norm_quantile (2/3) - norm_quantile (1/3))"
proof -
  have "compute_d_prime norm_ppf [1,1,1,0,0,0] [1,1,0,0,1,0]
     = Inr (Finite (2/3), Finite (1/3), Finite (norm_quantile (2/3) - norm_quantile (1/3)))"
    using compute_d_prime_example [of norm_ppf] by (simp only: norm_ppf_example)
  moreover have "0.09 < 0.9539 - (norm_quantile (2/3) - norm_quantile (1/3))"
    using d_prime_example_bounds(2) by simp
  ultimately show ?thesis by (rule conjI)
qed

text \<open>
  C6, as the code has it. On \<open>y_true = [1,1,1,0,0,0]\<close>, \<open>y_pred = [1,1,0,0,1,0]\<close> the
  counts are hits 2, misses 1, false alarms 1, correct rejects 2; with \<open>norm.ppf\<close> for
  \<open>z_score\<close> the function returns, in this order, the hit rate 2/3, the false-alarm rate
  1/3 and the inverse standard-normal distribution function of 2/3 minus that of 1/3.
  The two quantiles are the points where the distribution function takes the values 2/3
  and 1/3, and their difference lies between 0.86145 and 0.86146.
\<close>

theorem compute_d_prime_worked_example:
  "logical_and_sum 1 1 [1,1,0,0,1,0] [1,1,1,0,0,0] = Inr 2
   \<and> logical_and_sum 0 1 [1,1,0,0,1,0] [1,1,1,0,0,0] = Inr 1
   \<and> logical_and_sum 1 0 [1,1,0,0,1,0] [1,1,1,0,0,0] = Inr 1
   \<and> logical_and_sum 0 0 [1,1,0,0,1,0] [1,1,1,0,0,0] = Inr 2
   \<and> compute_d_prime norm_ppf [1,1,1,0,0,0] [1,1,0,0,1,0]
       = Inr (Finite (2/3), Finite (1/3), Finite (norm_quantile (2/3) - norm_quantile (1/3)))
   \<and> norm_cdf (norm_quantile (2/3)) = 2/3
   \<and> norm_cdf (norm_quantile (1/3)) = 1/3
   \<and> 0.86145 < norm_quantile (2/3) - norm_quantile (1/3)
   \<and> norm_quantile (2/3) - norm_quantile (1/3) < 0.86146"
proof -
  have third: "norm_cdf (norm_quantile (1/3)) = 1/3"
    by (simp add: norm_quantile_one_third norm_cdf_minus norm_quantile_two_thirds(1))
  show ?thesis
    using compute_d_prime_example [of norm_ppf] norm_quantile_two_thirds(1) third
      d_prime_example_bounds
    by (simp only: norm_ppf_example simp_thms)
qed

lemma las_eq: "length y_pred = length y_true \<Longrightarrow>
  logical_and_sum p t y_pred y_true = Inr (length (filter (\<lambda>(yp, yt). yp = p \<and> yt = t) (zip y_pred y_true)))"
  by (simp add: logical_and_sum_def broadcast_def)

lemma class_nonempty:
  "length y_pred = length y_true \<Longrightarrow> set y_pred \<subseteq> {0, 1} \<Longrightarrow> t \<in> set y_true \<Longrightarrow>
   0 < length (filter (\<lambda>(yp, yt). yp = 1 \<and> yt = t) (zip y_pred y_true))
     + length (filter (\<lambda>(yp, yt). yp = 0 \<and> yt = t) (zip y_pred y_true))"
  by (induction y_pred y_true rule: list_induct2) auto

lemma class_empty:
  "t \<notin> set y_true \<Longrightarrow> filter (\<lambda>(yp, yt). yp = p \<and> yt = t) (zip y_pred y_true) = []"
  by (auto simp: filter_empty_conv dest: set_zip_rightD)

lemma corrected_real:
  fixes q h :: real
  assumes "0 < h" "h \<le> 1 / 2" "0 \<le> q" "q \<le> 1"
  shows "\<exists>r. (let r1 = (if Finite q = Finite 1 then fsub (Finite 1) (Finite h) else Finite q)
              in (if r1 = Finite 0 then Finite h else r1)) = Finite r
     \<and> 0 < r \<and> r < 1 \<and> (q = 1 \<longrightarrow> r = 1 - h) \<and> (q = 0 \<longrightarrow> r = h)"
proof (cases "q = 1")
  case True
  with assms show ?thesis by (simp add: Let_def)
next
  case False
  with assms show ?thesis by (cases "q = 0") (simp_all add: Let_def)
qed

lemma corrected_rate:
  fixes a b :: nat
  assumes "0 < a + b"
  shows "\<exists>r. (let raw = fdiv (real a) (real (a + b));
              half = fdiv 0.5 (real (a + b));
              r1 = (if raw = Finite 1 then fsub (Finite 1) half else raw)
           in (if r1 = Finite 0 then half else r1)) = Finite r
     \<and> 0 < r \<and> r < 1
     \<and> (real a / real (a + b) = 1 \<longrightarrow> r = 1 - 0.5 / real (a + b))
     \<and> (real a / real (a + b) = 0 \<longrightarrow> r = 0.5 / real (a + b))"
proof -
  have pos: "0 < real (a + b)" using assms(1) by (simp only: of_nat_0_less_iff)
  then have nz: "real (a + b) \<noteq> 0" by simp
  have raw: "fdiv (real a) (real (a + b)) = Finite (real a / real (a + b))"
    "fdiv 0.5 (real (a + b)) = Finite (0.5 / real (a + b))"
    using nz by (simp_all only: fdiv_def if_False)
  have hpos: "0 < 0.5 / real (a + b)" using pos by simp
  have "1 \<le> a + b" using assms(1) by linarith
  then have one: "1 \<le> real (a + b)" using of_nat_mono[of 1 "a + b"] by simp
  have hle: "0.5 / real (a + b) \<le> 1 / 2" using one pos by (simp only: divide_le_eq) simp
  have "real a \<le> real (a + b)" by simp
  then have q: "0 \<le> real a / real (a + b)" "real a / real (a + b) \<le> 1"
    using pos by (simp_all only: divide_le_eq_1 zero_le_divide_iff of_nat_0_le_iff) simp_all
  show ?thesis
    unfolding raw Let_def using corrected_real[OF hpos hle q] unfolding Let_def .
qed

text \<open>
  C5. For parallel arrays with binary predictions, at least one target-present and at
  least one target-absent sample, and a quantile function that is finite inside the unit
  interval, \<open>compute_d_prime\<close> returns three finite values: no infinity and no NaN.
  Both returned rates lie strictly between 0 and 1; a raw hit rate of exactly 1 is
  returned as \<open>1 - 0.5 / (hits + misses)\<close>, one of exactly 0 as
  \<open>0.5 / (hits + misses)\<close>, and the false-alarm rate is corrected the same way with
  the denominator \<open>false_alarms + correct_rejects\<close>.
\<close>

theorem compute_d_prime_boundary:
  assumes len: "length y_true = length y_pred"
    and bin: "set y_pred \<subseteq> {0, 1}"
    and tgt: "1 \<in> set y_true"
    and lure: "0 \<in> set y_true"
    and z: "\<forall>p. 0 < p \<and> p < 1 \<longrightarrow> is_finite (z_score (Finite p))"
  shows "\<exists>hits misses false_alarms correct_rejects hr far d.
      logical_and_sum 1 1 y_pred y_true = Inr hits
    \<and> logical_and_sum 0 1 y_pred y_true = Inr misses
    \<and> logical_and_sum 1 0 y_pred y_true = Inr false_alarms
    \<and> logical_and_sum 0 0 y_pred y_true = Inr correct_rejects
    \<and> 0 < hits + misses \<and> 0 < false_alarms + correct_rejects
    \<and> compute_d_prime z_score y_true y_pred = Inr (Finite hr, Finite far, Finite d)
    \<and> 0 < hr \<and> hr < 1 \<and> 0 < far \<and> far < 1
    \<and> (real hits / real (hits + misses) = 1 \<longrightarrow> hr = 1 - 0.5 / real (hits + misses))
    \<and> (real hits / real (hits + misses) = 0 \<longrightarrow> hr = 0.5 / real (hits + misses))
    \<and> (real false_alarms / real (false_alarms + correct_rejects) = 1
          \<longrightarrow> far = 1 - 0.5 / real (false_alarms + correct_rejects))
    \<and> (real false_alarms / real (false_alarms + correct_rejects) = 0
          \<longrightarrow> far = 0.5 / real (false_alarms + correct_rejects))"
proof -
  define c where "c p t = length (filter (\<lambda>(yp, yt). yp = p \<and> yt = t) (zip y_pred y_true))" for p t :: int
  have las: "logical_and_sum p t y_pred y_true = Inr (c p t)" for p t
    using len by (simp add: las_eq c_def)
  have n1: "0 < c 1 1 + c 0 1" and n0: "0 < c 1 0 + c 0 0"
    using class_nonempty[of y_pred y_true] len bin tgt lure by (simp_all add: c_def)
  obtain hr where hr: "(let raw = fdiv (real (c 1 1)) (real (c 1 1 + c 0 1));
        half = fdiv 0.5 (real (c 1 1 + c 0 1));
        r1 = (if raw = Finite 1 then fsub (Finite 1) half else raw)
      in (if r1 = Finite 0 then half else r1)) = Finite hr" "0 < hr" "hr < 1"
      "real (c 1 1) / real (c 1 1 + c 0 1) = 1 \<longrightarrow> hr = 1 - 0.5 / real (c 1 1 + c 0 1)"
      "real (c 1 1) / real (c 1 1 + c 0 1) = 0 \<longrightarrow> hr = 0.5 / real (c 1 1 + c 0 1)"
    using corrected_rate[OF n1] by blast
  obtain far where far: "(let raw = fdiv (real (c 1 0)) (real (c 1 0 + c 0 0));
        half = fdiv 0.5 (real (c 1 0 + c 0 0));
        r1 = (if raw = Finite 1 then fsub (Finite 1) half else raw)
      in (if r1 = Finite 0 then half else r1)) = Finite far" "0 < far" "far < 1"
      "real (c 1 0) / real (c 1 0 + c 0 0) = 1 \<longrightarrow> far = 1 - 0.5 / real (c 1 0 + c 0 0)"
      "real (c 1 0) / real (c 1 0 + c 0 0) = 0 \<longrightarrow> far = 0.5 / real (c 1 0 + c 0 0)"
    using corrected_rate[OF n0] by blast
  obtain zh where zh: "z_score (Finite hr) = Finite zh"
    using z hr(2,3) by (metis is_finite.elims(2))
  obtain zf where zf: "z_score (Finite far) = Finite zf"
    using z far(2,3) by (metis is_finite.elims(2))
  have cdp: "compute_d_prime z_score y_true y_pred = Inr (Finite hr, Finite far, Finite (zh - zf))"
    using hr(1) far(1) zh zf unfolding compute_d_prime_def las Let_def by simp
  show ?thesis
    using las n1 n0 cdp hr(2-) far(2-) by blast
qed


theorem compute_d_prime_boundary_witness:
  "length [1, 1, 0 :: int] = length [1, 1, 1 :: int]
   \<and> set [1, 1, 1 :: int] \<subseteq> {0, 1}
   \<and> (1 :: int) \<in> set [1, 1, 0] \<and> (0 :: int) \<in> set [1, 1, 0]
   \<and> is_finite (logit_ppf (Finite (3 / 4))) \<and> is_finite (logit_ppf (Finite (1 / 2)))
   \<and> compute_d_prime logit_ppf [1, 1, 0] [1, 1, 1] = Inr (Finite (3 / 4), Finite (1 / 2), Finite (8 / 3))"
proof -
  have h1: "length [1, 1, 0 :: int] = length [1, 1, 1 :: int]" by simp
  have h2: "set [1, 1, 1 :: int] \<subseteq> {0, 1}" by simp
  have h3: "(1 :: int) \<in> set [1, 1, 0]" by simp
  have h4: "(0 :: int) \<in> set [1, 1, 0]" by simp
  have h5: "\<forall>p. 0 < p \<and> p < 1 \<longrightarrow> is_finite (logit_ppf (Finite p))"
    by (simp add: logit_ppf_def)
  have "compute_d_prime logit_ppf [1, 1, 0] [1, 1, 1] = Inr (Finite (3 / 4), Finite (1 / 2), Finite (8 / 3))"
    using compute_d_prime_boundary [OF h1 h2 h3 h4 h5]
    by (simp add: compute_d_prime_def logical_and_sum_def broadcast_def fdiv_def Let_def logit_ppf_def)
  moreover have "is_finite (logit_ppf (Finite (3 / 4))) \<and> is_finite (logit_ppf (Finite (1 / 2)))"
    by (simp add: logit_ppf_def)
  ultimately show ?thesis using h1 h2 h3 h4 by blast
qed

text \<open>
  C4. With no target-present sample the division \<open>0 / 0\<close> of numpy scalars raises
  nothing: on \<open>y_true = [0, 0]\<close>, \<open>y_pred = [0, 1]\<close> the function returns a
  triple, with NaN as hit rate and as d-prime.
\<close>

theorem compute_d_prime_degenerate_counterexample:
  "compute_d_prime logit_ppf [0, 0] [0, 1] = Inr (NaN, Finite (1 / 2), NaN)"
  by (simp add: compute_d_prime_def logical_and_sum_def broadcast_def fdiv_def Let_def logit_ppf_def)

lemma fsub_NaN_right: "fsub x NaN = NaN"
  by (cases x) simp_all

text \<open>
  C4, as the code has it. For parallel arrays in which the target-present class or the
  lure class is empty, \<open>compute_d_prime\<close> raises no error and returns a triple: the
  hit rate is NaN when there is no target, the false-alarm rate is NaN when there is no
  lure, and d-prime is NaN whenever the quantile function maps NaN to NaN.
\<close>

theorem compute_d_prime_degenerate:
  assumes len: "length y_true = length y_pred"
    and empty: "1 \<notin> set y_true \<or> 0 \<notin> set y_true"
  shows "\<exists>hr far d. compute_d_prime z_score y_true y_pred = Inr (hr, far, d)
     \<and> (1 \<notin> set y_true \<longrightarrow> hr = NaN)
     \<and> (0 \<notin> set y_true \<longrightarrow> far = NaN)
     \<and> (z_score NaN = NaN \<longrightarrow> d = NaN)"
proof -
  define c where "c p t = length (filter (\<lambda>(yp, yt). yp = p \<and> yt = t) (zip y_pred y_true))" for p t :: int
  have las: "logical_and_sum p t y_pred y_true = Inr (c p t)" for p t
    using len by (simp add: las_eq c_def)
  have z1: "1 \<notin> set y_true \<Longrightarrow> c p 1 = 0" for p
    by (simp add: c_def class_empty)
  have z0: "0 \<notin> set y_true \<Longrightarrow> c p 0 = 0" for p
    by (simp add: c_def class_empty)
  obtain hr far d where r: "compute_d_prime z_score y_true y_pred = Inr (hr, far, d)"
    unfolding compute_d_prime_def las by (simp add: Let_def)
  have hr: "hr = NaN" if "1 \<notin> set y_true"
    using r z1[OF that] unfolding compute_d_prime_def las by (simp add: Let_def fdiv_def)
  have far: "far = NaN" if "0 \<notin> set y_true"
    using r z0[OF that] unfolding compute_d_prime_def las by (simp add: Let_def fdiv_def)
  have d: "d = fsub (z_score hr) (z_score far)"
    using r unfolding compute_d_prime_def las by (auto simp add: Let_def)
  have "d = NaN" if "z_score NaN = NaN"
    using empty hr far that d by (auto simp: fsub_NaN_right)
  with r hr far show ?thesis by blast
qed

theorem compute_d_prime_degenerate_witness:
  "length [0, 0 :: int] = length [0, 1 :: int] \<and> (1 :: int) \<notin> set [0, 0]
   \<and> logit_ppf NaN = NaN
   \<and> compute_d_prime logit_ppf [0, 0] [0, 1] = Inr (NaN, Finite (1 / 2), NaN)"
proof -
  have h1: "length [0, 0 :: int] = length [0, 1 :: int]" by simp
  have h2: "(1 :: int) \<notin> set [0, 0] \<or> (0 :: int) \<notin> set [0, 0]" by simp
  have h3: "logit_ppf NaN = NaN" by (simp add: logit_ppf_def)
  obtain hr far d where r: "compute_d_prime logit_ppf [0, 0] [0, 1] = Inr (hr, far, d)"
    and n: "hr = NaN" "d = NaN"
    using compute_d_prime_degenerate [OF h1 h2, of logit_ppf] h3 by auto
  have "far = Finite (1 / 2)"
    using r by (simp add: compute_d_prime_def logical_and_sum_def broadcast_def fdiv_def Let_def)
  with r n h1 h3 show ?thesis by simp
qed

section \<open>Properties of \<open>acc_grid\<close> and \<open>err_grid\<close>\<close>

lemma incr_dims: "incr cell counts = Inr counts' \<Longrightarrow> map length counts' = map length counts"
  by (cases cell) (auto simp: incr_def map_update list_update_same_conv split: if_splits)

lemma foldE_incr_dims: "foldE incr cells counts = Inr counts' \<Longrightarrow> map length counts' = map length counts"
  by (rule foldE_invariant[where I = "\<lambda>c. map length c = map length counts"]) (auto dest: incr_dims)

lemma acc_step_dims:
  assumes "acc_step stim_fnames y_true y_pred gf (cc, tc) = Inr (cc', tc')"
  shows "map length cc' = map length cc \<and> map length tc' = map length tc"
  using assms
  by (cases gf) (auto simp: acc_step_def Let_def bindE_Inr_iff split: if_splits dest: foldE_incr_dims)

lemma acc_loop_dims:
  assumes "foldE (acc_step stim_fnames y_true y_pred) gs (cc, tc) = Inr (cc', tc')"
    and "map length cc = map length tc"
  shows "map length cc' = map length tc'"
proof -
  have "(\<lambda>(c, t). map length c = map length t) (cc', tc')"
    by (rule foldE_invariant[OF assms(1), where I = "\<lambda>(c, t). map length c = map length t"])
       (use assms(2) in \<open>auto dest: acc_step_dims\<close>)
  then show ?thesis by simp
qed

lemma acc_grid_Inr:
  assumes "acc_grid stim_fnames y_true y_pred char_grids stim_fnames_meta return_counts = Inr r"
  shows "\<exists>correct_counts trial_counts.
      map length correct_counts = map length trial_counts
    \<and> (\<forall>rc. acc_grid stim_fnames y_true y_pred char_grids stim_fnames_meta rc =
          Inr (let acc = map2 (map2 (\<lambda>c t. fdiv (real c) (real t))) correct_counts trial_counts
               in if rc then GridCounts acc correct_counts trial_counts else Grid acc))"
proof -
  from assms obtain grid_shape where gs: "mapE asarray_shape char_grids = Inr grid_shape"
    and one: "length (remdups grid_shape) = 1"
    unfolding acc_grid_def by (auto simp: bindE_Inr_iff split: if_splits)
  obtain rows cols where rc: "hd (remdups grid_shape) = (rows, cols)" by (cases "hd (remdups grid_shape)")
  define zeros where "zeros = replicate rows (replicate cols (0 :: nat))"
  from assms gs one rc obtain cc tc where
    loop: "foldE (acc_step stim_fnames y_true y_pred) (zip char_grids stim_fnames_meta) (zeros, zeros) = Inr (cc, tc)"
    unfolding acc_grid_def zeros_def by (auto simp: bindE_Inr_iff Let_def)
  have dims: "map length cc = map length tc"
    using acc_loop_dims[OF loop] by simp
  have "acc_grid stim_fnames y_true y_pred char_grids stim_fnames_meta rc =
          Inr (let acc = map2 (map2 (\<lambda>c t. fdiv (real c) (real t))) cc tc
               in if rc then GridCounts acc cc tc else Grid acc)" for rc
    unfolding acc_grid_def using gs one rc loop by (simp add: Let_def zeros_def)
  with dims show ?thesis by blast
qed

lemma map2_nth2:
  assumes "map length cc = map length tc" "i < length tc" "j < length (tc ! i)"
  shows "map2 (map2 f) cc tc ! i ! j = f (cc ! i ! j) (tc ! i ! j)"
proof -
  have l: "length cc = length tc" using assms(1) by (metis length_map)
  have li: "length (cc ! i) = length (tc ! i)"
    using assms(1,2) l by (metis nth_map)
  show ?thesis using assms l li by simp
qed

text \<open>
  C10. Whenever \<open>acc_grid\<close> succeeds on an input, \<open>err_grid\<close> succeeds on it too and
  returns a grid of the same dimensions whose every cell is 1 minus the accuracy cell.
  In a cell with a nonzero trial count the accuracy is the finite quotient of correct
  count and trial count, and the error is 1 minus that quotient; the accuracy is finite
  in exactly those cells. With \<open>return_counts\<close>, \<open>err_grid\<close> returns the same
  correct-count and trial-count arrays as \<open>acc_grid\<close>.
\<close>

theorem err_grid_complement:
  assumes "acc_grid stim_fnames y_true y_pred char_grids stim_fnames_meta return_counts = Inr r"
  shows "\<exists>acc err correct_counts trial_counts.
      acc_grid stim_fnames y_true y_pred char_grids stim_fnames_meta True
        = Inr (GridCounts acc correct_counts trial_counts)
    \<and> r = (if return_counts then GridCounts acc correct_counts trial_counts else Grid acc)
    \<and> err_grid stim_fnames y_true y_pred char_grids stim_fnames_meta return_counts
        = Inr (if return_counts then GridCounts err correct_counts trial_counts else Grid err)
    \<and> map length err = map length acc \<and> map length acc = map length trial_counts
    \<and> map length correct_counts = map length trial_counts
    \<and> (\<forall>i j. i < length trial_counts \<and> j < length (trial_counts ! i) \<longrightarrow>
          err ! i ! j = fsub (Finite 1) (acc ! i ! j)
        \<and> (is_finite (acc ! i ! j) \<longleftrightarrow> trial_counts ! i ! j \<noteq> 0)
        \<and> (trial_counts ! i ! j \<noteq> 0 \<longrightarrow>
              acc ! i ! j = Finite (real (correct_counts ! i ! j) / real (trial_counts ! i ! j))
            \<and> err ! i ! j = Finite (1 - real (correct_counts ! i ! j) / real (trial_counts ! i ! j))))"
proof -
  from acc_grid_Inr[OF assms] obtain cc tc where dims: "map length cc = map length tc"
    and run: "\<And>rc. acc_grid stim_fnames y_true y_pred char_grids stim_fnames_meta rc =
          Inr (let acc = map2 (map2 (\<lambda>c t. fdiv (real c) (real t))) cc tc
               in if rc then GridCounts acc cc tc else Grid acc)"
    by blast
  define acc where "acc = map2 (map2 (\<lambda>c t. fdiv (real c) (real t))) cc tc"
  define err where "err = map (map (fsub (Finite 1))) acc"
  have l: "length cc = length tc" using dims by (metis length_map)
  have li: "length (cc ! i) = length (tc ! i)" if "i < length tc" for i
    using dims that l by (metis nth_map)
  have dacc: "map length acc = map length tc"
    unfolding acc_def using l li by (auto simp: list_eq_iff_nth_eq)
  have derr: "map length err = map length acc"
    unfolding err_def by (simp add: comp_def)
  have r: "r = (if return_counts then GridCounts acc cc tc else Grid acc)"
    using run[of return_counts] assms by (simp add: Let_def acc_def)
  have e: "err_grid stim_fnames y_true y_pred char_grids stim_fnames_meta return_counts
        = Inr (if return_counts then GridCounts err cc tc else Grid err)"
    unfolding err_grid_def run by (simp add: Let_def acc_def err_def)
  have cell: "acc ! i ! j = fdiv (real (cc ! i ! j)) (real (tc ! i ! j))"
    if "i < length tc" "j < length (tc ! i)" for i j
    unfolding acc_def using map2_nth2[OF dims that] .
  have ecell: "err ! i ! j = fsub (Finite 1) (acc ! i ! j)"
    if "i < length tc" "j < length (tc ! i)" for i j
  proof -
    have "i < length acc" using dacc that(1) by (metis length_map)
    moreover have "j < length (acc ! i)" using dacc that \<open>i < length acc\<close> by (metis nth_map)
    ultimately show ?thesis by (simp add: err_def)
  qed
  have "acc_grid stim_fnames y_true y_pred char_grids stim_fnames_meta True = Inr (GridCounts acc cc tc)"
    using run[of True] by (simp add: Let_def acc_def)
  moreover have "\<forall>i j. i < length tc \<and> j < length (tc ! i) \<longrightarrow>
          err ! i ! j = fsub (Finite 1) (acc ! i ! j)
        \<and> (is_finite (acc ! i ! j) \<longleftrightarrow> tc ! i ! j \<noteq> 0)
        \<and> (tc ! i ! j \<noteq> 0 \<longrightarrow>
              acc ! i ! j = Finite (real (cc ! i ! j) / real (tc ! i ! j))
            \<and> err ! i ! j = Finite (1 - real (cc ! i ! j) / real (tc ! i ! j)))"
    using cell ecell by (auto simp: fdiv_def)
  ultimately show ?thesis using r e dacc derr dims by blast
qed

theorem err_grid_complement_witness:
  "acc_grid [''a'', ''b''] [1, 0] [1, 1] [grid_a, grid_b] [''b'', ''a''] True
     = Inr (GridCounts [[Finite 0, Finite 1], [Finite (1 / 2), NaN]] [[0, 1], [1, 0]] [[1, 1], [2, 0]])
   \<and> err_grid [''a'', ''b''] [1, 0] [1, 1] [grid_a, grid_b] [''b'', ''a''] True
     = Inr (GridCounts [[Finite 1, Finite 0], [Finite (1 / 2), NaN]] [[0, 1], [1, 0]] [[1, 1], [2, 0]])"
proof -
  have h: "acc_grid [''a'', ''b''] [1, 0] [1, 1] [grid_a, grid_b] [''b'', ''a''] True
     = Inr (GridCounts [[Finite 0, Finite 1], [Finite (1 / 2), NaN]] [[0, 1], [1, 0]] [[1, 1], [2, 0]])"
    by code_simp
  from err_grid_complement [OF h] obtain err where
    e: "err_grid [''a'', ''b''] [1, 0] [1, 1] [grid_a, grid_b] [''b'', ''a''] True
          = Inr (GridCounts err [[0, 1], [1, 0]] [[1, 1], [2, 0]])"
    using h by auto
  have "err_grid [''a'', ''b''] [1, 0] [1, 1] [grid_a, grid_b] [''b'', ''a''] True
     = Inr (GridCounts [[Finite 1, Finite 0], [Finite (1 / 2), NaN]] [[0, 1], [1, 0]] [[1, 1], [2, 0]])"
    using e unfolding err_grid_def h by simp
  with h show ?thesis by simp
qed

section \<open>Properties of the partitioner\<close>

subsection \<open>One pass of the innermost loop\<close>

lemma pops_Inr:
  "pops n inds = Inr (popped, rest) \<Longrightarrow> inds = rest @ rev popped \<and> length popped = n"
proof (induction n arbitrary: inds popped rest)
  case 0
  then show ?case by simp
next
  case (Suc n)
  from Suc.prems have ne: "inds \<noteq> []" by (auto split: if_splits)
  with Suc.prems obtain p' where p': "pops n (butlast inds) = Inr (p', rest)" "popped = last inds # p'"
    by (auto simp: bindE_Inr_iff)
  from Suc.IH[OF p'(1)] have "butlast inds = rest @ rev p'" "length p' = n" by simp_all
  then show ?case using p'(2) ne
    by (metis append_assoc append_butlast_last_id length_Cons rev.simps(2))
qed

lemma fancy_index_Inr:
  "fancy_index arr inds = Inr xs \<Longrightarrow>
     inds \<noteq> [] \<and> (\<forall>i \<in> set inds. i < length arr) \<and> xs = map (\<lambda>i. arr ! i) inds"
  by (auto simp: fancy_index_def split: if_splits)

lemma extend_opt_Inr: "extend_opt e xs ys = Inr zs \<Longrightarrow> \<exists>l. xs = Some l \<and> zs = l @ ys"
  by (auto simp: extend_opt_def split: option.splits)

lemma train_block_Inr:
  assumes "train_block tn stim_type set_size stim_fnames (v, inds) = Inr (v1, inds1)"
  shows "\<exists>train_inds. inds = inds1 @ rev train_inds \<and> train_inds \<noteq> []
     \<and> length train_inds = nat tn \<and> (\<forall>i \<in> set train_inds. i < length stim_fnames)
     \<and> extends v v1 (map (\<lambda>i. stim_fnames ! i) train_inds, [], [])"
proof -
  from assms obtain train_inds tmp_x_train where
    p: "pops (nat tn) inds = Inr (train_inds, inds1)"
    and f: "fancy_index stim_fnames train_inds = Inr tmp_x_train"
    and v1: "v1 = v\<lparr>x_train := x_train v @ tmp_x_train,
             set_size_vec_train := set_size_vec_train v @ replicate (length tmp_x_train) set_size,
             stim_type_vec_train := stim_type_vec_train v @ replicate (length tmp_x_train) stim_type\<rparr>"
    unfolding train_block_def by (auto simp: bindE_Inr_iff)
  show ?thesis
    using pops_Inr[OF p] fancy_index_Inr[OF f] v1
    by (intro exI[of _ train_inds]) (simp add: extends_def option.map_ident)
qed

lemma val_block_Inr:
  assumes "val_block vn stim_type set_size stim_fnames (v, inds) = Inr (v1, inds1)"
  shows "\<exists>val_inds. inds = inds1 @ rev val_inds
     \<and> length val_inds = nat vn \<and> (\<forall>i \<in> set val_inds. i < length stim_fnames)
     \<and> extends v v1 ([], map (\<lambda>i. stim_fnames ! i) val_inds, [])"
proof (cases "0 < vn")
  case True
  with assms obtain val_inds tmp_x_val xv sv tv where
    p: "pops (nat vn) inds = Inr (val_inds, inds1)"
    and f: "fancy_index stim_fnames val_inds = Inr tmp_x_val"
    and e1: "extend_opt AttributeError (x_val v) tmp_x_val = Inr xv"
    and e3: "extend_opt UnboundLocalError (stim_type_vec_val v) (replicate (length tmp_x_val) stim_type) = Inr tv"
    and v1: "v1 = v\<lparr>x_val := Some xv, set_size_vec_val := Some sv, stim_type_vec_val := Some tv\<rparr>"
    unfolding val_block_def by (auto simp: bindE_Inr_iff)
  show ?thesis
    using pops_Inr[OF p] fancy_index_Inr[OF f] extend_opt_Inr[OF e1] extend_opt_Inr[OF e3] v1
    by (intro exI[of _ val_inds]) (auto simp: extends_def)
next
  case False
  with assms have "v1 = v" "inds1 = inds" by (simp_all add: val_block_def)
  then show ?thesis using False
    by (intro exI[of _ "[]"]) (simp add: extends_def option.map_ident)
qed

lemma test_block_Inr:
  assumes "test_block ten stim_type set_size stim_fnames (v, inds) = Inr v1"
  shows "\<exists>test_inds left. mset inds = mset test_inds + mset left \<and> test_inds \<noteq> []
     \<and> (if 0 < ten then length test_inds = nat ten else ten = - 1 \<and> left = [])
     \<and> (\<forall>i \<in> set test_inds. i < length stim_fnames)
     \<and> extends v v1 ([], [], map (\<lambda>i. stim_fnames ! i) test_inds)"
proof -
  from assms obtain test_inds tmp_x_test where
    t: "(if 0 < ten then bindE (pops (nat ten) inds) (\<lambda>(test_inds, inds). Inr test_inds)
         else if ten = - 1 then Inr inds else Inl UnboundLocalError) = Inr test_inds"
    and f: "fancy_index stim_fnames test_inds = Inr tmp_x_test"
    and v1: "v1 = v\<lparr>x_test := x_test v @ tmp_x_test,
             set_size_vec_test := set_size_vec_test v @ replicate (length tmp_x_test) set_size,
             stim_type_vec_train := stim_type_vec_train v @ replicate (length tmp_x_test) stim_type\<rparr>"
    unfolding test_block_def by (auto simp: bindE_Inr_iff)
  have e: "extends v v1 ([], [], map (\<lambda>i. stim_fnames ! i) test_inds)"
    using fancy_index_Inr[OF f] v1 by (simp add: extends_def option.map_ident)
  show ?thesis
  proof (cases "0 < ten")
    case True
    with t obtain inds3 where p: "pops (nat ten) inds = Inr (test_inds, inds3)"
      by (auto simp: bindE_Inr_iff)
    show ?thesis using pops_Inr[OF p] True fancy_index_Inr[OF f] e
      by (intro exI[of _ test_inds] exI[of _ inds3]) auto
  next
    case False
    with t have "ten = - 1" "test_inds = inds" by (auto split: if_splits)
    then show ?thesis using False fancy_index_Inr[OF f] e
      by (intro exI[of _ test_inds] exI[of _ "[]"]) auto
  qed
qed

lemma extends_trans:
  assumes "extends v v1 (a, b, c)" "extends v1 v2 (a', b', c')"
  shows "extends v v2 (a @ a', b @ b', c @ c')"
  using assms by (cases "x_val v") (auto simp: extends_def)

lemma extends_refl: "extends v v ([], [], [])"
  by (simp add: extends_def option.map_ident)

text \<open>The index lists behind a successful pass of the innermost loop.\<close>

lemma leaf_Inr:
  assumes "leaf shuffle tn vn ten stim_type set_size stim_fnames (v, g) = Inr (v', g')"
  shows "\<exists>train_inds val_inds test_inds left.
      mset (fst (shuffle g [0..<length stim_fnames]))
        = mset train_inds + mset val_inds + mset test_inds + mset left
    \<and> g' = snd (shuffle g [0..<length stim_fnames])
    \<and> train_inds \<noteq> [] \<and> length train_inds = nat tn
    \<and> length val_inds = nat vn
    \<and> test_inds \<noteq> []
    \<and> (if 0 < ten then length test_inds = nat ten else ten = - 1 \<and> left = [])
    \<and> (\<forall>i \<in> set (train_inds @ val_inds @ test_inds). i < length stim_fnames)
    \<and> extends v v' (map (\<lambda>i. stim_fnames ! i) train_inds,
                     map (\<lambda>i. stim_fnames ! i) val_inds,
                     map (\<lambda>i. stim_fnames ! i) test_inds)"
proof -
  obtain inds g1 where sh: "shuffle g [0..<length stim_fnames] = (inds, g1)"
    by (cases "shuffle g [0..<length stim_fnames]")
  from assms have run:
    "bindE (train_block tn stim_type set_size stim_fnames (v, inds)) (\<lambda>(v, inds).
     bindE (val_block vn stim_type set_size stim_fnames (v, inds)) (\<lambda>(v, inds).
     bindE (test_block ten stim_type set_size stim_fnames (v, inds)) (\<lambda>v. Inr (v, g1))))
     = Inr (v', g')"
    unfolding leaf_def by (simp add: sh Let_def split: if_splits)
  then obtain s1 where b1': "train_block tn stim_type set_size stim_fnames (v, inds) = Inr s1"
    and r1: "(case s1 of (v, inds) \<Rightarrow>
       bindE (val_block vn stim_type set_size stim_fnames (v, inds)) (\<lambda>(v, inds).
       bindE (test_block ten stim_type set_size stim_fnames (v, inds)) (\<lambda>v. Inr (v, g1))))
       = Inr (v', g')"
    by (rule bindE_InrE)
  obtain v1 inds1 where s1: "s1 = (v1, inds1)" by (cases s1)
  from r1 obtain s2 where b2': "val_block vn stim_type set_size stim_fnames (v1, inds1) = Inr s2"
    and r2: "(case s2 of (v, inds) \<Rightarrow>
       bindE (test_block ten stim_type set_size stim_fnames (v, inds)) (\<lambda>v. Inr (v, g1)))
       = Inr (v', g')"
    unfolding s1 prod.case by (rule bindE_InrE)
  obtain v2 inds2 where s2: "s2 = (v2, inds2)" by (cases s2)
  from r2 obtain v3 where b3': "test_block ten stim_type set_size stim_fnames (v2, inds2) = Inr v3"
    and r3: "Inr (v3, g1) = (Inr (v', g') :: error + vars \<times> 'a)"
    unfolding s2 prod.case by (rule bindE_InrE)
  have b1: "train_block tn stim_type set_size stim_fnames (v, inds) = Inr (v1, inds1)"
    using b1' s1 by simp
  have b2: "val_block vn stim_type set_size stim_fnames (v1, inds1) = Inr (v2, inds2)"
    using b2' s2 by simp
  have b3: "test_block ten stim_type set_size stim_fnames (v2, inds2) = Inr v'"
    and g': "g' = g1"
    using b3' r3 by simp_all
  from train_block_Inr[OF b1] obtain train_inds where
    t: "inds = inds1 @ rev train_inds" "train_inds \<noteq> []" "length train_inds = nat tn"
       "\<forall>i \<in> set train_inds. i < length stim_fnames"
       "extends v v1 (map (\<lambda>i. stim_fnames ! i) train_inds, [], [])"
    by blast
  from val_block_Inr[OF b2] obtain val_inds where
    va: "inds1 = inds2 @ rev val_inds" "length val_inds = nat vn"
       "\<forall>i \<in> set val_inds. i < length stim_fnames"
       "extends v1 v2 ([], map (\<lambda>i. stim_fnames ! i) val_inds, [])"
    by blast
  from test_block_Inr[OF b3] obtain test_inds left where
    te: "mset inds2 = mset test_inds + mset left" "test_inds \<noteq> []"
       "if 0 < ten then length test_inds = nat ten else ten = - 1 \<and> left = []"
       "\<forall>i \<in> set test_inds. i < length stim_fnames"
       "extends v2 v' ([], [], map (\<lambda>i. stim_fnames ! i) test_inds)"
    by blast
  have m: "mset (fst (shuffle g [0..<length stim_fnames]))
        = mset train_inds + mset val_inds + mset test_inds + mset left"
    using sh t(1) va(1) te(1) by simp
  have e: "extends v v' (map (\<lambda>i. stim_fnames ! i) train_inds,
                     map (\<lambda>i. stim_fnames ! i) val_inds,
                     map (\<lambda>i. stim_fnames ! i) test_inds)"
    using extends_trans[OF extends_trans[OF t(5) va(4)] te(5)] by simp
  have r: "\<forall>i \<in> set (train_inds @ val_inds @ test_inds). i < length stim_fnames"
    using t(4) va(3) te(4) by auto
  have gg: "g' = snd (shuffle g [0..<length stim_fnames])"
    using g' sh by simp
  show ?thesis
    using m gg t(2,3) va(2) te(2,3) r e by blast
qed

lemma leaf_drawn:
  assumes "leaf shuffle tn vn ten stim_type set_size stim_fnames (v, g) = Inr (v', g')"
  shows "\<exists>d. drawn (permuting shuffle) tn vn ten stim_fnames d \<and> extends v v' d"
proof -
  from leaf_Inr[OF assms] obtain train_inds val_inds test_inds left where
    m: "mset (fst (shuffle g [0..<length stim_fnames]))
        = mset train_inds + mset val_inds + mset test_inds + mset left"
    and tr: "train_inds \<noteq> []" "length train_inds = nat tn"
    and va: "length val_inds = nat vn"
    and te: "test_inds \<noteq> []" "if 0 < ten then length test_inds = nat ten else ten = - 1 \<and> left = []"
    and rng: "\<forall>i \<in> set (train_inds @ val_inds @ test_inds). i < length stim_fnames"
    and e: "extends v v' (map (\<lambda>i. stim_fnames ! i) train_inds,
                     map (\<lambda>i. stim_fnames ! i) val_inds,
                     map (\<lambda>i. stim_fnames ! i) test_inds)"
    by blast
  let ?f = "\<lambda>i. stim_fnames ! i"
  let ?all = "train_inds @ val_inds @ test_inds"
  have one: "1 \<le> tn" using tr by (cases train_inds) auto
  have sub: "set (map ?f train_inds) \<union> set (map ?f val_inds) \<union> set (map ?f test_inds) \<subseteq> set stim_fnames"
    using rng by auto
  have perm: "distinct (map ?f train_inds @ map ?f val_inds @ map ?f test_inds)"
    if p: "permuting shuffle" and d: "distinct stim_fnames"
  proof -
    have "mset (?all @ left) = mset [0..<length stim_fnames]"
      using m p by (simp add: permuting_def)
    then have "distinct (?all @ left)"
      by (metis distinct_upt mset_eq_imp_distinct_iff)
    then have da: "distinct ?all" by auto
    have "inj_on ?f (set ?all)"
      using rng d by (auto simp: inj_on_def nth_eq_iff_index_eq)
    then have "distinct (map ?f ?all)" unfolding distinct_map using da by (intro conjI)
    then show ?thesis by simp
  qed
  have rem: "length train_inds + length val_inds + length test_inds = length stim_fnames"
    if p: "permuting shuffle" and t: "ten = - 1"
  proof -
    have "left = []" using te(2) t by simp
    then have "mset ?all = mset [0..<length stim_fnames]"
      using m p by (simp add: permuting_def)
    then have "length ?all = length [0..<length stim_fnames]"
      by (rule mset_eq_length)
    then show ?thesis by simp
  qed
  have c5: "if 0 < ten then length (map ?f test_inds) = nat ten else ten = - 1"
    using te(2) by (cases "0 < ten") simp_all
  have c7: "if permuting shuffle then
            (if distinct stim_fnames
             then distinct (map ?f train_inds @ map ?f val_inds @ map ?f test_inds) else True)
          \<and> (if ten = - 1
             then length (map ?f train_inds) + length (map ?f val_inds) + length (map ?f test_inds)
                    = length stim_fnames
             else True)
          else True"
  proof (cases "permuting shuffle")
    case True
    have 1: "if distinct stim_fnames
             then distinct (map ?f train_inds @ map ?f val_inds @ map ?f test_inds) else True"
      using perm[OF True] by (cases "distinct stim_fnames") simp_all
    have 2: "if ten = - 1
             then length (map ?f train_inds) + length (map ?f val_inds) + length (map ?f test_inds)
                    = length stim_fnames
             else True"
      using rem[OF True] by (cases "ten = - 1") simp_all
    show ?thesis using True 1 2 by (simp only: if_True simp_thms)
  next
    case False
    then show ?thesis by (simp only: if_False)
  qed
  have l1: "length (map ?f train_inds) = nat tn" using tr(2) by simp
  have l2: "length (map ?f val_inds) = nat vn" using va by simp
  have l3: "map ?f test_inds \<noteq> []" using te(1) by simp
  have "drawn (permuting shuffle) tn vn ten stim_fnames
          (map ?f train_inds, map ?f val_inds, map ?f test_inds)"
    unfolding drawn_def prod.case
    by (intro conjI one l1 l2 l3 c5 sub c7)
  with e show ?thesis by blast
qed

lemma cat3_Nil: "cat3 [] = ([], [], [])"
  by (simp add: cat3_def)

lemma cat3_append:
  "cat3 (ds @ es) = (fst (cat3 ds) @ fst (cat3 es),
                     fst (snd (cat3 ds)) @ fst (snd (cat3 es)),
                     snd (snd (cat3 ds)) @ snd (snd (cat3 es)))"
  by (simp add: cat3_def)

lemma cat3_single: "cat3 [d] = d"
  by (cases d) (simp add: cat3_def)

lemma extends_cat3_append:
  assumes "extends v v1 (cat3 ds)" "extends v1 v2 (cat3 es)"
  shows "extends v v2 (cat3 (ds @ es))"
proof -
  obtain a b c where 1: "cat3 ds = (a, b, c)" by (cases "cat3 ds")
  obtain a' b' c' where 2: "cat3 es = (a', b', c')" by (cases "cat3 es")
  show ?thesis
    using extends_trans[of v v1 a b c v2 a' b' c'] assms
    unfolding cat3_append 1 2 by simp
qed

text \<open>A loop whose passes each append draws appends the draws of all passes.\<close>

lemma foldE_draws_nested:
  fixes pv :: "'s \<Rightarrow> vars"
  assumes "foldE f xs s = Inr s'"
    and "\<And>x s s'. x \<in> set xs \<Longrightarrow> f x s = Inr s'
            \<Longrightarrow> \<exists>ds. Q x ds \<and> extends (pv s) (pv s') (cat3 ds)"
  shows "\<exists>dss. list_all2 Q xs dss \<and> extends (pv s) (pv s') (cat3 (concat dss))"
  using assms
proof (induction xs arbitrary: s)
  case Nil
  then show ?case by (simp add: cat3_Nil extends_refl)
next
  case (Cons x xs)
  from Cons.prems(1) obtain s1 where s1: "f x s = Inr s1" "foldE f xs s1 = Inr s'"
    by (auto simp: bindE_Inr_iff)
  from Cons.prems(2)[of x s s1] s1(1) obtain ds where
    ds: "Q x ds" "extends (pv s) (pv s1) (cat3 ds)" by auto
  have "\<exists>dss. list_all2 Q xs dss \<and> extends (pv s1) (pv s') (cat3 (concat dss))"
    by (rule Cons.IH[OF s1(2)]) (use Cons.prems(2) in auto)
  then obtain dss where dss: "list_all2 Q xs dss" "extends (pv s1) (pv s') (cat3 (concat dss))"
    by blast
  have "list_all2 Q (x # xs) (ds # dss)" using ds(1) dss(1) by simp
  moreover have "extends (pv s) (pv s') (cat3 (concat (ds # dss)))"
    using extends_cat3_append[OF ds(2) dss(2)] by simp
  ultimately show ?case by blast
qed

lemma list_all2_concat:
  "list_all2 (\<lambda>x ds. list_all2 R (L x) ds) xs dss \<Longrightarrow> list_all2 R (concat (map L xs)) (concat dss)"
  by (induction xs dss rule: list_all2_induct) (auto intro: list_all2_appendI)

lemma foldE_draws:
  fixes pv :: "'s \<Rightarrow> vars"
  assumes "foldE f xs s = Inr s'"
    and "\<And>x s s'. x \<in> set xs \<Longrightarrow> f x s = Inr s'
            \<Longrightarrow> \<exists>ds. list_all2 R (L x) ds \<and> extends (pv s) (pv s') (cat3 ds)"
  shows "\<exists>ds. list_all2 R (concat (map L xs)) ds \<and> extends (pv s) (pv s') (cat3 ds)"
proof -
  from foldE_draws_nested[of f xs s s' "\<lambda>x ds. list_all2 R (L x) ds" pv, OF assms]
  obtain dss where "list_all2 (\<lambda>x ds. list_all2 R (L x) ds) xs dss"
    "extends (pv s) (pv s') (cat3 (concat dss))" by blast
  then show ?thesis using list_all2_concat by blast
qed

subsection \<open>The loops over the presence states and the set sizes\<close>

lemma presence_loop_drawn:
  assumes "foldE (\<lambda>(present_or_absent, stim_fnames).
             leaf shuffle tn vn ten stim_type set_size stim_fnames) pa (v, g) = Inr (v', g')"
  shows "\<exists>ds. list_all2 (drawn (permuting shuffle) tn vn ten) (map snd pa) ds
            \<and> extends v v' (cat3 ds)"
proof -
  have "\<exists>ds. list_all2 (drawn (permuting shuffle) tn vn ten) (concat (map (\<lambda>x. [snd x]) pa)) ds
            \<and> extends (fst (v, g)) (fst (v', g')) (cat3 ds)"
  proof (rule foldE_draws[where L = "\<lambda>x. [snd x]" and pv = fst, OF assms])
    fix x s s'
    assume "(case x of (present_or_absent, stim_fnames) \<Rightarrow>
               leaf shuffle tn vn ten stim_type set_size stim_fnames) s = Inr s'"
    then have "leaf shuffle tn vn ten stim_type set_size (snd x) (fst s, snd s) = Inr (fst s', snd s')"
      by (cases x) simp
    from leaf_drawn[OF this] obtain d where
      "drawn (permuting shuffle) tn vn ten (snd x) d" "extends (fst s) (fst s') d" by blast
    then show "\<exists>ds. list_all2 (drawn (permuting shuffle) tn vn ten) [snd x] ds
                 \<and> extends (fst s) (fst s') (cat3 ds)"
      by (intro exI[of _ "[d]"]) (simp add: cat3_single)
  qed
  moreover have "concat (map (\<lambda>x. [snd x]) pa) = map snd pa" by (induction pa) auto
  ultimately show ?thesis by simp
qed

lemma set_size_loop_drawn:
  assumes "foldE (\<lambda>(set_size, stim_fnames_present_absent).
             foldE (\<lambda>(present_or_absent, stim_fnames).
                      leaf shuffle tn vn ten stim_type set_size stim_fnames)
                   stim_fnames_present_absent) by_ss (v, g) = Inr (v', g')"
  shows "\<exists>ds. list_all2 (drawn (permuting shuffle) tn vn ten)
                 (concat (map (\<lambda>x. map snd (snd x)) by_ss)) ds
            \<and> extends v v' (cat3 ds)"
proof -
  have "\<exists>ds. list_all2 (drawn (permuting shuffle) tn vn ten)
                 (concat (map (\<lambda>x. map snd (snd x)) by_ss)) ds
            \<and> extends (fst (v, g)) (fst (v', g')) (cat3 ds)"
  proof (rule foldE_draws[where L = "\<lambda>x. map snd (snd x)" and pv = fst, OF assms])
    fix x s s'
    assume "(case x of (set_size, stim_fnames_present_absent) \<Rightarrow>
             foldE (\<lambda>(present_or_absent, stim_fnames).
                      leaf shuffle tn vn ten stim_type set_size stim_fnames)
                   stim_fnames_present_absent) s = Inr s'"
    then have "foldE (\<lambda>(present_or_absent, stim_fnames).
                      leaf shuffle tn vn ten stim_type (fst x) stim_fnames)
                   (snd x) (fst s, snd s) = Inr (fst s', snd s')"
      by (cases x) simp
    from presence_loop_drawn[OF this]
    show "\<exists>ds. list_all2 (drawn (permuting shuffle) tn vn ten) (map snd (snd x)) ds
                 \<and> extends (fst s) (fst s') (cat3 ds)" .
  qed
  then show ?thesis by simp
qed

subsection \<open>Whole-number divisions\<close>

lemma whole_Inr: "whole q = Inr n \<Longrightarrow> q = of_int n"
proof -
  assume a: "whole q = Inr n"
  then have i: "q = of_int \<lfloor>q\<rfloor>" and n: "n = int_of_float q"
    by (auto simp: whole_def is_integer_def split: if_splits)
  have "\<lceil>q\<rceil> = \<lfloor>q\<rfloor>" using i by (metis ceiling_of_int)
  then have "n = \<lfloor>q\<rfloor>" using n by (simp add: int_of_float_def)
  then show ?thesis using i by simp
qed

lemma true_div_whole_Inr:
  assumes "bindE (true_div (real_of_int sz) (real k)) whole = Inr n"
  shows "k \<noteq> 0 \<and> sz = int k * n"
proof -
  from assms obtain q where q: "true_div (real_of_int sz) (real k) = Inr q" and w: "whole q = Inr n"
    by (rule bindE_InrE)
  from q have k: "k \<noteq> 0" and qq: "q = real_of_int sz / real k"
    by (auto simp: true_div_def split: if_splits)
  from whole_Inr[OF w] qq have "real_of_int sz / real k = of_int n" by simp
  then have "real_of_int sz = real_of_int (int k * n)" using k by (simp add: field_simps)
  then have "sz = int k * n" by (simp only: of_int_eq_iff)
  with k show ?thesis by simp
qed

lemma size_per_set_size_Inr:
  assumes "size_per_set_size sz len = Inr n"
  shows "len \<noteq> 0 \<and> sz = 2 * int len * n"
proof -
  from assms obtain q where q: "true_div (real_of_int sz) (real len) = Inr q"
    and w: "whole (q / 2) = Inr n"
    unfolding size_per_set_size_def by (rule bindE_InrE)
  from q have k: "len \<noteq> 0" and qq: "q = real_of_int sz / real len"
    by (auto simp: true_div_def split: if_splits)
  from whole_Inr[OF w] qq have "real_of_int sz / real len / 2 = of_int n" by simp
  then have "real_of_int sz = real_of_int (2 * int len * n)" using k by (simp add: field_simps)
  then have "sz = 2 * int len * n" by (simp only: of_int_eq_iff)
  with k show ?thesis by simp
qed

lemma size_per_stim_type_Inr:
  assumes "size_per_stim_type sz k unset = Inr n"
  shows "if truthy sz then k \<noteq> 0 \<and> the sz = int k * n else n = unset"
proof (cases "truthy sz")
  case True
  with assms have "bindE (true_div (real_of_int (the sz)) (real k)) whole = Inr n"
    by (simp add: size_per_stim_type_def)
  from true_div_whole_Inr[OF this] True show ?thesis by simp
next
  case False
  with assms show ?thesis by (simp add: size_per_stim_type_def)
qed

subsection \<open>The loop over the stimulus types\<close>

lemma pools_of_comprehension:
  "concat (map (\<lambda>x. map snd (snd x))
     (map (\<lambda>(set_size, present_absent_dict).
             (set_size, map (\<lambda>(present_or_absent, stim_info_list).
                               (present_or_absent, map filename stim_info_list))
                            present_absent_dict))
          by_ss))
   = pools_of by_ss"
  unfolding pools_of_def
  by (induction by_ss) (auto simp: case_prod_beta comp_def)

lemma per_stim_type_drawn:
  assumes "per_stim_type shuffle tps val_size vps test_size teps entry (v, sss, g)
             = Inr (v', sss', g')"
  shows "\<exists>ds. entry_drawn (permuting shuffle) tps val_size vps test_size teps entry ds
            \<and> extends v v' (cat3 ds)"
proof -
  obtain stim_type by_ss where entry: "entry = (stim_type, by_ss)" by (cases entry)
  define fn where "fn = map (\<lambda>(set_size, present_absent_dict).
             (set_size, map (\<lambda>(present_or_absent, stim_info_list).
                               (present_or_absent, map filename stim_info_list))
                            present_absent_dict)) by_ss"
  have len: "length (map fst by_ss) = length by_ss" by simp
  from assms have run:
    "bindE (size_per_set_size tps (length by_ss)) (\<lambda>train_size_per_set_size.
     bindE (if truthy val_size then size_per_set_size vps (length by_ss) else Inr 0)
       (\<lambda>val_size_per_set_size.
     bindE (if test_size = None \<or> test_size = Some (- 1) then Inr (- 1)
            else if 0 < the test_size then size_per_set_size teps (length by_ss)
            else Inl ValueError)
       (\<lambda>test_size_per_set_size.
     bindE (foldE (\<lambda>(set_size, stim_fnames_present_absent).
                     foldE (\<lambda>(present_or_absent, stim_fnames).
                              leaf shuffle train_size_per_set_size val_size_per_set_size
                                test_size_per_set_size stim_type set_size stim_fnames)
                           stim_fnames_present_absent)
                  fn (v, g))
       (\<lambda>(v, g). Inr (v, dict_set stim_type (map fst by_ss) sss, g)))))
     = Inr (v', sss', g')"
    unfolding per_stim_type_def entry prod.case Let_def len fn_def .
  then obtain tn where tn: "size_per_set_size tps (length by_ss) = Inr tn"
    and run2: "bindE (if truthy val_size then size_per_set_size vps (length by_ss) else Inr 0)
       (\<lambda>val_size_per_set_size.
     bindE (if test_size = None \<or> test_size = Some (- 1) then Inr (- 1)
            else if 0 < the test_size then size_per_set_size teps (length by_ss)
            else Inl ValueError)
       (\<lambda>test_size_per_set_size.
     bindE (foldE (\<lambda>(set_size, stim_fnames_present_absent).
                     foldE (\<lambda>(present_or_absent, stim_fnames).
                              leaf shuffle tn val_size_per_set_size
                                test_size_per_set_size stim_type set_size stim_fnames)
                           stim_fnames_present_absent)
                  fn (v, g))
       (\<lambda>(v, g). Inr (v, dict_set stim_type (map fst by_ss) sss, g))))
     = Inr (v', sss', g')"
    by (rule bindE_InrE)
  from run2 obtain vn where
    vn: "(if truthy val_size then size_per_set_size vps (length by_ss) else Inr 0) = Inr vn"
    and run3: "bindE (if test_size = None \<or> test_size = Some (- 1) then Inr (- 1)
            else if 0 < the test_size then size_per_set_size teps (length by_ss)
            else Inl ValueError)
       (\<lambda>test_size_per_set_size.
     bindE (foldE (\<lambda>(set_size, stim_fnames_present_absent).
                     foldE (\<lambda>(present_or_absent, stim_fnames).
                              leaf shuffle tn vn
                                test_size_per_set_size stim_type set_size stim_fnames)
                           stim_fnames_present_absent)
                  fn (v, g))
       (\<lambda>(v, g). Inr (v, dict_set stim_type (map fst by_ss) sss, g)))
     = Inr (v', sss', g')"
    by (rule bindE_InrE)
  from run3 obtain ten where
    ten: "(if test_size = None \<or> test_size = Some (- 1) then Inr (- 1)
            else if 0 < the test_size then size_per_set_size teps (length by_ss)
            else Inl ValueError) = Inr ten"
    and run4: "bindE (foldE (\<lambda>(set_size, stim_fnames_present_absent).
                     foldE (\<lambda>(present_or_absent, stim_fnames).
                              leaf shuffle tn vn ten stim_type set_size stim_fnames)
                           stim_fnames_present_absent)
                  fn (v, g))
       (\<lambda>(v, g). Inr (v, dict_set stim_type (map fst by_ss) sss, g))
     = Inr (v', sss', g')"
    by (rule bindE_InrE)
  from run4 obtain s1 where
    loop': "foldE (\<lambda>(set_size, stim_fnames_present_absent).
                     foldE (\<lambda>(present_or_absent, stim_fnames).
                              leaf shuffle tn vn ten stim_type set_size stim_fnames)
                           stim_fnames_present_absent)
                  fn (v, g) = Inr s1"
    and fin: "(case s1 of (v, g) \<Rightarrow> Inr (v, dict_set stim_type (map fst by_ss) sss, g))
                = (Inr (v', sss', g') :: error + vars \<times> (string \<times> int list) list \<times> 'a)"
    by (rule bindE_InrE)
  from fin have s1: "s1 = (v', g')" by (cases s1) simp
  from set_size_loop_drawn[OF loop'[unfolded s1]] obtain ds where
    ds: "list_all2 (drawn (permuting shuffle) tn vn ten)
           (concat (map (\<lambda>x. map snd (snd x)) fn)) ds" "extends v v' (cat3 ds)"
    by blast
  have pools: "concat (map (\<lambda>x. map snd (snd x)) fn) = pools_of by_ss"
    unfolding fn_def by (rule pools_of_comprehension)
  have c2: "if truthy val_size then size_per_set_size vps (length by_ss) = Inr vn else vn = 0"
    using vn by (cases "truthy val_size") simp_all
  have c3: "if test_size = None \<or> test_size = Some (- 1) then ten = - 1
          else 0 < the test_size \<and> size_per_set_size teps (length by_ss) = Inr ten"
    using ten by (cases "test_size = None \<or> test_size = Some (- 1)") (simp_all split: if_splits)
  have "entry_drawn (permuting shuffle) tps val_size vps test_size teps entry ds"
    unfolding entry_drawn_def entry snd_conv
    using tn c2 c3 ds(1)[unfolded pools] by blast
  with ds(2) show ?thesis by blast
qed

lemma stim_type_loop_drawn:
  assumes "foldE (per_stim_type shuffle tps val_size vps test_size teps) m (v, sss, g)
             = Inr (v', sss', g')"
  shows "\<exists>dss. list_all2 (entry_drawn (permuting shuffle) tps val_size vps test_size teps) m dss
             \<and> extends v v' (cat3 (concat dss))"
proof -
  have "\<exists>dss. list_all2 (entry_drawn (permuting shuffle) tps val_size vps test_size teps) m dss
             \<and> extends (fst (v, sss, g)) (fst (v', sss', g')) (cat3 (concat dss))"
  proof (rule foldE_draws_nested[where pv = fst, OF assms])
    fix x s s'
    assume "per_stim_type shuffle tps val_size vps test_size teps x s = Inr s'"
    then have "per_stim_type shuffle tps val_size vps test_size teps x
                 (fst s, fst (snd s), snd (snd s)) = Inr (fst s', fst (snd s'), snd (snd s'))"
      by simp
    from per_stim_type_drawn[OF this]
    show "\<exists>ds. entry_drawn (permuting shuffle) tps val_size vps test_size teps x ds
             \<and> extends (fst s) (fst s') (cat3 ds)" .
  qed
  then show ?thesis by simp
qed

subsection \<open>The whole function\<close>

lemma make_dict_Inr:
  assumes "make_dict val_size v sss = Inr b"
  shows "x_train b = x_train v \<and> x_val b = x_val v \<and> x_test b = x_test v
       \<and> set_size_vec_train b = set_size_vec_train v
       \<and> set_size_vec_val b = set_size_vec_val v
       \<and> set_size_vec_test b = set_size_vec_test v
       \<and> stim_type_vec_train b = stim_type_vec_train v
       \<and> stim_type_vec_val b = stim_type_vec_val v
       \<and> stim_type_vec_test b = stim_type_vec_test v
       \<and> stim_type_vec_val v \<noteq> None
       \<and> y_train b = labels (x_train v) \<and> y_test b = labels (x_test v)
       \<and> y_val b = (if truthy val_size then map_option labels (x_val v) else None)
       \<and> set_sizes_by_stim_stype b = sss"
proof -
  from assms obtain yv where
    yv: "(if truthy val_size
          then (case x_val v of None \<Rightarrow> Inl TypeError | Some xv \<Rightarrow> Inr (Some (labels xv)))
          else Inr None) = Inr yv"
    and r: "(case stim_type_vec_val v of
         None \<Rightarrow> Inl UnboundLocalError
       | Some tv \<Rightarrow>
           Inr \<lparr>x_train = x_train v,
                set_size_vec_train = set_size_vec_train v,
                stim_type_vec_train = stim_type_vec_train v,
                x_val = x_val v,
                set_size_vec_val = set_size_vec_val v,
                stim_type_vec_val = Some tv,
                x_test = x_test v,
                set_size_vec_test = set_size_vec_test v,
                stim_type_vec_test = stim_type_vec_test v,
                y_train = labels (x_train v), y_val = yv, y_test = labels (x_test v),
                set_sizes_by_stim_stype = sss\<rparr>) = Inr b"
    unfolding make_dict_def Let_def by (rule bindE_InrE)
  from r obtain tv where tv: "stim_type_vec_val v = Some tv"
    by (cases "stim_type_vec_val v") simp_all
  from r tv have b: "b = \<lparr>x_train = x_train v,
                set_size_vec_train = set_size_vec_train v,
                stim_type_vec_train = stim_type_vec_train v,
                x_val = x_val v,
                set_size_vec_val = set_size_vec_val v,
                stim_type_vec_val = Some tv,
                x_test = x_test v,
                set_size_vec_test = set_size_vec_test v,
                stim_type_vec_test = stim_type_vec_test v,
                y_train = labels (x_train v), y_val = yv, y_test = labels (x_test v),
                set_sizes_by_stim_stype = sss\<rparr>" by simp
  have "yv = (if truthy val_size then map_option labels (x_val v) else None)"
    using yv by (cases "truthy val_size"; cases "x_val v") simp_all
  then show ?thesis unfolding b using tv by simp
qed

text \<open>What a successful run of \<open>data\<close> went through.\<close>

lemma data_Inr:
  assumes "data shuffle g fname_json train_size val_size test_size = Inr (b, g')"
  shows "\<exists>m tps vps teps dss.
      fname_json = [m] \<and> m \<noteq> [] \<and> train_size = int (length m) * tps
    \<and> truthy val_size \<and> the val_size = int (length m) * vps
    \<and> (if truthy test_size then the test_size = int (length m) * teps else teps = - 1)
    \<and> list_all2 (entry_drawn (permuting shuffle) tps val_size vps test_size teps) m dss
    \<and> x_train b = fst (cat3 (concat dss))
    \<and> x_val b = Some (fst (snd (cat3 (concat dss))))
    \<and> x_test b = snd (snd (cat3 (concat dss)))
    \<and> y_train b = labels (x_train b)
    \<and> y_val b = Some (labels (fst (snd (cat3 (concat dss)))))
    \<and> y_test b = labels (x_test b)"
proof -
  from assms have ne: "fname_json \<noteq> []" and le: "\<not> 1 < length fname_json"
    unfolding data_def by (auto split: if_splits)
  then obtain m where m: "fname_json = [m]"
    by (cases fname_json) auto
  from assms have run:
    "bindE (bindE (true_div (real_of_int train_size) (real (length m))) whole)
          (\<lambda>train_size_per_stim_type.
        bindE (size_per_stim_type val_size (length m) 0)
          (\<lambda>val_size_per_stim_type.
        bindE (size_per_stim_type test_size (length m) (- 1))
          (\<lambda>test_size_per_stim_type.
        bindE (foldE (per_stim_type shuffle train_size_per_stim_type val_size
                        val_size_per_stim_type test_size test_size_per_stim_type)
                     m (init_vars val_size, [], g))
          (\<lambda>(v, set_sizes_by_stim_stype, g).
        bindE (make_dict val_size v set_sizes_by_stim_stype)
          (\<lambda>data_dict. Inr (data_dict, g)))))) = Inr (b, g')"
    unfolding data_def m by (simp add: Let_def)
  then obtain tps where tps: "bindE (true_div (real_of_int train_size) (real (length m))) whole = Inr tps"
    and run2: "bindE (size_per_stim_type val_size (length m) 0)
          (\<lambda>val_size_per_stim_type.
        bindE (size_per_stim_type test_size (length m) (- 1))
          (\<lambda>test_size_per_stim_type.
        bindE (foldE (per_stim_type shuffle tps val_size
                        val_size_per_stim_type test_size test_size_per_stim_type)
                     m (init_vars val_size, [], g))
          (\<lambda>(v, set_sizes_by_stim_stype, g).
        bindE (make_dict val_size v set_sizes_by_stim_stype)
          (\<lambda>data_dict. Inr (data_dict, g))))) = Inr (b, g')"
    by (rule bindE_InrE)
  from run2 obtain vps where vps: "size_per_stim_type val_size (length m) 0 = Inr vps"
    and run3: "bindE (size_per_stim_type test_size (length m) (- 1))
          (\<lambda>test_size_per_stim_type.
        bindE (foldE (per_stim_type shuffle tps val_size
                        vps test_size test_size_per_stim_type)
                     m (init_vars val_size, [], g))
          (\<lambda>(v, set_sizes_by_stim_stype, g).
        bindE (make_dict val_size v set_sizes_by_stim_stype)
          (\<lambda>data_dict. Inr (data_dict, g)))) = Inr (b, g')"
    by (rule bindE_InrE)
  from run3 obtain teps where teps: "size_per_stim_type test_size (length m) (- 1) = Inr teps"
    and run4: "bindE (foldE (per_stim_type shuffle tps val_size vps test_size teps)
                     m (init_vars val_size, [], g))
          (\<lambda>(v, set_sizes_by_stim_stype, g).
        bindE (make_dict val_size v set_sizes_by_stim_stype)
          (\<lambda>data_dict. Inr (data_dict, g))) = Inr (b, g')"
    by (rule bindE_InrE)
  from run4 obtain s1 where
    loop': "foldE (per_stim_type shuffle tps val_size vps test_size teps)
                     m (init_vars val_size, [], g) = Inr s1"
    and run5: "(case s1 of (v, ss, g) \<Rightarrow>
        bindE (make_dict val_size v ss)
          (\<lambda>data_dict. Inr (data_dict, g))) = Inr (b, g')"
    by (rule bindE_InrE)
  obtain v sss g1 where s1: "s1 = (v, sss, g1)" by (cases s1)
  from run5 have md: "make_dict val_size v sss = Inr b"
    unfolding s1 prod.case by (auto elim: bindE_InrE)
  note M = make_dict_Inr[OF md]
  from stim_type_loop_drawn[OF loop'[unfolded s1]] obtain dss where
    dss: "list_all2 (entry_drawn (permuting shuffle) tps val_size vps test_size teps) m dss"
      and ex: "extends (init_vars val_size) v (cat3 (concat dss))"
    by blast
  have tr: "truthy val_size"
  proof (rule ccontr)
    assume "\<not> truthy val_size"
    then have "stim_type_vec_val (init_vars val_size) = None" by (simp add: init_vars_def)
    then have "stim_type_vec_val v = None" using ex by (simp add: extends_def)
    then show False using M by simp
  qed
  have xs: "x_train v = fst (cat3 (concat dss))"
    "x_val v = Some (fst (snd (cat3 (concat dss))))"
    "x_test v = snd (snd (cat3 (concat dss)))"
    using ex tr by (simp_all add: extends_def init_vars_def)
  from true_div_whole_Inr[OF tps] have a1: "length m \<noteq> 0" "train_size = int (length m) * tps"
    by simp_all
  from size_per_stim_type_Inr[OF vps] tr have a2: "the val_size = int (length m) * vps" by simp
  from size_per_stim_type_Inr[OF teps]
  have a3: "if truthy test_size then the test_size = int (length m) * teps else teps = - 1"
    by (cases "truthy test_size") simp_all
  have ys: "y_train b = labels (x_train b)" "y_test b = labels (x_test b)"
    "y_val b = Some (labels (fst (snd (cat3 (concat dss)))))"
    "x_train b = fst (cat3 (concat dss))"
    "x_val b = Some (fst (snd (cat3 (concat dss))))"
    "x_test b = snd (snd (cat3 (concat dss)))"
    using M xs tr by simp_all
  have mne: "m \<noteq> []" using a1(1) by simp
  show ?thesis
    using m mne a1(2) tr a2 a3 dss ys by blast
qed

subsection \<open>Draws and fpools\<close>

lemma cat3_concat:
  "fst (cat3 (concat dss)) = concat (map (\<lambda>ds. fst (cat3 ds)) dss)"
  "fst (snd (cat3 (concat dss))) = concat (map (\<lambda>ds. fst (snd (cat3 ds))) dss)"
  "snd (snd (cat3 (concat dss))) = concat (map (\<lambda>ds. snd (snd (cat3 ds))) dss)"
  by (induction dss) (simp_all add: cat3_def)

lemma cat3_proj:
  "fst (cat3 ds) = concat (map fst ds)"
  "fst (snd (cat3 ds)) = concat (map (\<lambda>d. fst (snd d)) ds)"
  "snd (snd (cat3 ds)) = concat (map (\<lambda>d. snd (snd d)) ds)"
  by (simp_all add: cat3_def comp_def)

lemma drawn_D:
  assumes "drawn perm tn vn ten fnames d"
  shows "1 \<le> tn" "length (fst d) = nat tn" "length (fst (snd d)) = nat vn"
    "0 < ten \<Longrightarrow> length (snd (snd d)) = nat ten"
    "\<not> 0 < ten \<Longrightarrow> ten = - 1"
    "set (fst d) \<subseteq> set fnames" "set (fst (snd d)) \<subseteq> set fnames" "set (snd (snd d)) \<subseteq> set fnames"
    "perm \<Longrightarrow> distinct fnames \<Longrightarrow> distinct (fst d @ fst (snd d) @ snd (snd d))"
    "perm \<Longrightarrow> ten = - 1 \<Longrightarrow>
       length (fst d) + length (fst (snd d)) + length (snd (snd d)) = length fnames"
proof -
  obtain tr va te where d: "d = (tr, va, te)" by (cases d)
  note a = assms[unfolded drawn_def d prod.case]
  show "1 \<le> tn" "length (fst d) = nat tn" "length (fst (snd d)) = nat vn"
    using a by (simp_all add: d)
  show "0 < ten \<Longrightarrow> length (snd (snd d)) = nat ten" using a by (simp add: d)
  show "\<not> 0 < ten \<Longrightarrow> ten = - 1" using a by (simp add: d)
  show "set (fst d) \<subseteq> set fnames" "set (fst (snd d)) \<subseteq> set fnames" "set (snd (snd d)) \<subseteq> set fnames"
    using a by (simp_all add: d)
  show "perm \<Longrightarrow> distinct fnames \<Longrightarrow> distinct (fst d @ fst (snd d) @ snd (snd d))"
    using a by (simp add: d)
  show "perm \<Longrightarrow> ten = - 1 \<Longrightarrow>
       length (fst d) + length (fst (snd d)) + length (snd (snd d)) = length fnames"
    using a by (simp add: d)
qed

lemma drawn_lengths:
  assumes "list_all2 (drawn perm tn vn ten) fpools ds"
  shows "length (concat (map fst ds)) = length fpools * nat tn"
    and "length (concat (map (\<lambda>d. fst (snd d)) ds)) = length fpools * nat vn"
    and "0 < ten \<Longrightarrow> length (concat (map (\<lambda>d. snd (snd d)) ds)) = length fpools * nat ten"
  using assms
  by (induction fpools ds rule: list_all2_induct) (simp_all add: drawn_D(2,3,4))

lemma drawn_subset:
  assumes "list_all2 (drawn perm tn vn ten) fpools ds"
  shows "set (concat (map fst ds)) \<subseteq> set (concat fpools)"
    and "set (concat (map (\<lambda>d. fst (snd d)) ds)) \<subseteq> set (concat fpools)"
    and "set (concat (map (\<lambda>d. snd (snd d)) ds)) \<subseteq> set (concat fpools)"
  using assms
proof (induction fpools ds rule: list_all2_induct)
  case Nil
  {
    case 1 show ?case by simp
  next
    case 2 show ?case by simp
  next
    case 3 show ?case by simp
  }
next
  case (Cons fnames fpools d ds)
  {
    case 1 show ?case using Cons.IH(1) drawn_D(6)[OF Cons.hyps(1)] by auto
  next
    case 2 show ?case using Cons.IH(2) drawn_D(7)[OF Cons.hyps(1)] by auto
  next
    case 3 show ?case using Cons.IH(3) drawn_D(8)[OF Cons.hyps(1)] by auto
  }
qed

lemma list_all2_zip_mem:
  "list_all2 Q xs ys \<Longrightarrow> (x, y) \<in> set (zip xs ys) \<Longrightarrow> Q x y"
  by (auto simp: list_all2_iff)

lemma distinct_concat_map_mem:
  "distinct (concat (map F xs)) \<Longrightarrow> x \<in> set xs \<Longrightarrow> distinct (F x)"
  by (induction xs) auto

text \<open>
  Blocks with pairwise disjoint files: what a block \<open>X0\<close> contributes to the
  concatenated output is found in the output of that block alone.
\<close>

lemma filter_block:
  assumes "list_all2 (\<lambda>X Y. \<forall>h \<in> H. set (h Y) \<subseteq> set (F X)) Xs Ys"
    and "distinct (concat (map F Xs))"
    and "X0 \<in> set Xs" and "set P \<subseteq> set (F X0)"
  shows "\<exists>Y0. (X0, Y0) \<in> set (zip Xs Ys)
           \<and> (\<forall>h \<in> H. filter (\<lambda>x. x \<in> set P) (concat (map h Ys))
                        = filter (\<lambda>x. x \<in> set P) (h Y0))"
  using assms
proof (induction Xs Ys rule: list_all2_induct)
  case Nil
  then show ?case by simp
next
  case (Cons X Xs Y Ys)
  have disj: "set (F X) \<inter> set (concat (map F Xs)) = {}"
    and dist: "distinct (concat (map F Xs))"
    using Cons.prems(1) by auto
  have rest_sub: "set (h Y') \<subseteq> set (concat (map F Xs))" if "h \<in> H" "Y' \<in> set Ys" for h Y'
  proof -
    from that(2) obtain i where i: "i < length Ys" "Ys ! i = Y'" by (auto simp: in_set_conv_nth)
    have l: "length Xs = length Ys" using Cons.hyps(2) by (rule list_all2_lengthD)
    have "set (h Y') \<subseteq> set (F (Xs ! i))"
      using list_all2_nthD[OF Cons.hyps(2), of i] i l that(1) by auto
    moreover have "Xs ! i \<in> set Xs" using i l by simp
    ultimately show ?thesis by auto
  qed
  show ?case
  proof (cases "X0 = X")
    case True
    have "filter (\<lambda>x. x \<in> set P) (concat (map h Ys)) = []" if "h \<in> H" for h
    proof -
      have "set (concat (map h Ys)) \<subseteq> set (concat (map F Xs))"
        using rest_sub[OF that] by auto
      then have "set (concat (map h Ys)) \<inter> set P = {}"
        using disj Cons.prems(3) True by blast
      then show ?thesis by (auto simp: filter_empty_conv)
    qed
    then have "\<forall>h \<in> H. filter (\<lambda>x. x \<in> set P) (concat (map h (Y # Ys)))
                        = filter (\<lambda>x. x \<in> set P) (h Y)"
      by simp
    then show ?thesis using True by (intro exI[of _ Y]) simp
  next
    case False
    then have mem: "X0 \<in> set Xs" using Cons.prems(2) by simp
    from Cons.IH[OF dist mem Cons.prems(3)] obtain Y0 where
      Y0: "(X0, Y0) \<in> set (zip Xs Ys)"
      "\<forall>h \<in> H. filter (\<lambda>x. x \<in> set P) (concat (map h Ys)) = filter (\<lambda>x. x \<in> set P) (h Y0)"
      by blast
    have "filter (\<lambda>x. x \<in> set P) (h Y) = []" if "h \<in> H" for h
    proof -
      have "set (h Y) \<subseteq> set (F X)" using Cons.hyps(1) that by simp
      moreover have "set P \<subseteq> set (concat (map F Xs))" using mem Cons.prems(3) by auto
      ultimately have "set (h Y) \<inter> set P = {}" using disj by blast
      then show ?thesis by (auto simp: filter_empty_conv)
    qed
    then have "\<forall>h \<in> H. filter (\<lambda>x. x \<in> set P) (concat (map h (Y # Ys)))
                        = filter (\<lambda>x. x \<in> set P) (h Y0)"
      using Y0(2) by simp
    then show ?thesis using Y0(1) by (intro exI[of _ Y0]) simp
  qed
qed

subsection \<open>Counts per stimulus type and per leaf pool\<close>

lemma pools_of_length:
  "list_all (\<lambda>(set_size, present_absent_dict). length present_absent_dict = 2
       \<and> set (map fst present_absent_dict) = {''present'', ''absent''}) by_ss
   \<Longrightarrow> length (pools_of by_ss) = 2 * length by_ss"
  unfolding pools_of_def by (induction by_ss) (auto simp: case_prod_beta)

lemma pools_of_mem:
  "(set_size, pa) \<in> set by_ss \<Longrightarrow> (presence, infos) \<in> set pa
   \<Longrightarrow> map filename infos \<in> set (pools_of by_ss)"
  unfolding pools_of_def by force

lemma filenames_of_alt:
  "filenames_of m = concat (map (\<lambda>e. concat (pools_of (snd e))) m)"
  unfolding filenames_of_def case_prod_beta by (rule refl)

lemma sum_blocks:
  "list_all2 (\<lambda>e ds. int (length (h ds)) = c) m dss
   \<Longrightarrow> int (length (concat (map h dss))) = int (length m) * c"
  by (induction m dss rule: list_all2_induct) (simp_all add: algebra_simps)

lemma entry_lengths:
  assumes ed: "entry_drawn perm tps val_size vps test_size teps e ds"
    and two: "list_all (\<lambda>(set_size, present_absent_dict). length present_absent_dict = 2
       \<and> set (map fst present_absent_dict) = {''present'', ''absent''}) (snd e)"
    and tv: "truthy val_size" and vnn: "0 \<le> vps"
  shows "int (length (fst (cat3 ds))) = tps"
    and "int (length (fst (snd (cat3 ds)))) = vps"
    and "test_size \<noteq> None \<Longrightarrow> test_size \<noteq> Some (- 1) \<Longrightarrow> 0 < teps
           \<Longrightarrow> int (length (snd (snd (cat3 ds)))) = teps"
proof -
  from ed obtain tn vn ten where
    tn: "size_per_set_size tps (length (snd e)) = Inr tn"
    and vn: "if truthy val_size then size_per_set_size vps (length (snd e)) = Inr vn else vn = 0"
    and ten: "if test_size = None \<or> test_size = Some (- 1) then ten = - 1
          else 0 < the test_size \<and> size_per_set_size teps (length (snd e)) = Inr ten"
    and dr: "list_all2 (drawn perm tn vn ten) (pools_of (snd e)) ds"
    unfolding entry_drawn_def by blast
  note T = size_per_set_size_Inr[OF tn]
  have len: "length (pools_of (snd e)) = 2 * length (snd e)"
    using pools_of_length[OF two] .
  then have "pools_of (snd e) \<noteq> []" using T by auto
  then obtain p ps where ps: "pools_of (snd e) = p # ps" by (cases "pools_of (snd e)") auto
  with dr obtain d ds' where "ds = d # ds'" "drawn perm tn vn ten p d"
    by (auto simp: list_all2_Cons1)
  then have one: "1 \<le> tn" using drawn_D(1) by blast
  have "int (length (fst (cat3 ds))) = int (length (pools_of (snd e)) * nat tn)"
    using drawn_lengths(1)[OF dr] by (simp add: cat3_proj)
  also have "\<dots> = 2 * int (length (snd e)) * tn" using len one by simp
  finally show "int (length (fst (cat3 ds))) = tps" using T by simp
  from vn tv have "size_per_set_size vps (length (snd e)) = Inr vn" by simp
  note V = size_per_set_size_Inr[OF this]
  have vn0: "0 \<le> vn"
  proof (rule ccontr)
    assume "\<not> 0 \<le> vn"
    then have neg: "vn < 0" by simp
    have pos: "0 < 2 * int (length (snd e))" using V by simp
    have "2 * int (length (snd e)) * vn < 0" using pos neg by (rule mult_pos_neg)
    then show False using V vnn by simp
  qed
  have "int (length (fst (snd (cat3 ds)))) = int (length (pools_of (snd e)) * nat vn)"
    using drawn_lengths(2)[OF dr] by (simp add: cat3_proj)
  also have "\<dots> = 2 * int (length (snd e)) * vn" using len vn0 by simp
  finally show "int (length (fst (snd (cat3 ds)))) = vps" using V by simp
  show "int (length (snd (snd (cat3 ds)))) = teps"
    if "test_size \<noteq> None" "test_size \<noteq> Some (- 1)" "0 < teps"
  proof -
    from ten that have "size_per_set_size teps (length (snd e)) = Inr ten" by simp
    note E = size_per_set_size_Inr[OF this]
    have ten0: "0 < ten"
    proof (rule ccontr)
      assume "\<not> 0 < ten"
      then have np: "ten \<le> 0" by simp
      have nn: "0 \<le> 2 * int (length (snd e))" by simp
      have "2 * int (length (snd e)) * ten \<le> 0" using nn np by (rule mult_nonneg_nonpos)
      then show False using E that(3) by simp
    qed
    have "int (length (snd (snd (cat3 ds)))) = int (length (pools_of (snd e)) * nat ten)"
      using drawn_lengths(3)[OF dr ten0] by (simp add: cat3_proj)
    also have "\<dots> = 2 * int (length (snd e)) * ten" using len ten0 by simp
    finally show ?thesis using E by simp
  qed
qed

text \<open>The draw of one leaf pool, found in the concatenated output of a stimulus type.\<close>

lemma entry_leaf_draw:
  assumes dr: "list_all2 (drawn perm tn vn ten) fpools ds"
    and dist: "distinct (concat fpools)"
    and mem: "P \<in> set fpools"
  shows "\<exists>d. drawn perm tn vn ten P d
     \<and> filter (\<lambda>x. x \<in> set P) (fst (cat3 ds)) = fst d
     \<and> filter (\<lambda>x. x \<in> set P) (fst (snd (cat3 ds))) = fst (snd d)
     \<and> filter (\<lambda>x. x \<in> set P) (snd (snd (cat3 ds))) = snd (snd d)"
proof -
  let ?H = "{fst, \<lambda>d. fst (snd d), \<lambda>d. snd (snd d)} :: (draw \<Rightarrow> string list) set"
  have pre: "list_all2 (\<lambda>X Y. \<forall>h \<in> ?H. set (h Y) \<subseteq> set ((\<lambda>X. X) X)) fpools ds"
    using dr by (rule list_all2_mono) (auto dest: drawn_D(6,7,8))
  have dist': "distinct (concat (map (\<lambda>X. X) fpools))" using dist by simp
  from filter_block[OF pre dist' mem subset_refl] obtain d where
    z: "(P, d) \<in> set (zip fpools ds)"
    and f: "\<forall>h \<in> ?H. filter (\<lambda>x. x \<in> set P) (concat (map h ds)) = filter (\<lambda>x. x \<in> set P) (h d)"
    by blast
  have d: "drawn perm tn vn ten P d" using list_all2_zip_mem[OF dr z] .
  have all: "filter (\<lambda>x. x \<in> set P) xs = xs" if "set xs \<subseteq> set P" for xs :: "string list"
    using that by (auto simp: filter_id_conv)
  have "filter (\<lambda>x. x \<in> set P) (concat (map fst ds)) = fst d"
    using f all[OF drawn_D(6)[OF d]] by simp
  moreover have "filter (\<lambda>x. x \<in> set P) (concat (map (\<lambda>d. fst (snd d)) ds)) = fst (snd d)"
    using f all[OF drawn_D(7)[OF d]] by simp
  moreover have "filter (\<lambda>x. x \<in> set P) (concat (map (\<lambda>d. snd (snd d)) ds)) = snd (snd d)"
    using f all[OF drawn_D(8)[OF d]] by simp
  ultimately show ?thesis using d by (auto simp: cat3_proj)
qed

text \<open>The same, in the output of the whole run.\<close>

lemma run_leaf_draw:
  assumes dss: "list_all2 (entry_drawn perm tps val_size vps test_size teps) m dss"
    and dist: "distinct (filenames_of m)"
    and e: "e \<in> set m" and mem: "P \<in> set (pools_of (snd e))"
  shows "\<exists>tn vn ten d.
       size_per_set_size tps (length (snd e)) = Inr tn
     \<and> (if truthy val_size then size_per_set_size vps (length (snd e)) = Inr vn else vn = 0)
     \<and> (if test_size = None \<or> test_size = Some (- 1) then ten = - 1
          else 0 < the test_size \<and> size_per_set_size teps (length (snd e)) = Inr ten)
     \<and> drawn perm tn vn ten P d
     \<and> filter (\<lambda>x. x \<in> set P) (fst (cat3 (concat dss))) = fst d
     \<and> filter (\<lambda>x. x \<in> set P) (fst (snd (cat3 (concat dss)))) = fst (snd d)
     \<and> filter (\<lambda>x. x \<in> set P) (snd (snd (cat3 (concat dss)))) = snd (snd d)"
proof -
  let ?H = "{\<lambda>ds. fst (cat3 ds), \<lambda>ds. fst (snd (cat3 ds)), \<lambda>ds. snd (snd (cat3 ds))}
             :: (draw list \<Rightarrow> string list) set"
  let ?F = "\<lambda>e :: string \<times> stim_info_by_set_size. concat (pools_of (snd e))"
  have sub: "\<forall>h \<in> ?H. set (h ds) \<subseteq> set (?F x)"
    if "entry_drawn perm tps val_size vps test_size teps x ds" for x ds
  proof -
    from that obtain tn vn ten where "list_all2 (drawn perm tn vn ten) (pools_of (snd x)) ds"
      unfolding entry_drawn_def by blast
    from drawn_subset[OF this] show ?thesis by (simp add: cat3_proj)
  qed
  have pre: "list_all2 (\<lambda>X Y. \<forall>h \<in> ?H. set (h Y) \<subseteq> set (?F X)) m dss"
    using dss by (rule list_all2_mono) (rule sub)
  have dist': "distinct (concat (map ?F m))" using dist by (simp add: filenames_of_alt)
  have P: "set P \<subseteq> set (?F e)" using mem by auto
  from filter_block[OF pre dist' e P] obtain ds where
    z: "(e, ds) \<in> set (zip m dss)"
    and f: "\<forall>h \<in> ?H. filter (\<lambda>x. x \<in> set P) (concat (map h dss)) = filter (\<lambda>x. x \<in> set P) (h ds)"
    by blast
  from list_all2_zip_mem[OF dss z] obtain tn vn ten where
    tn: "size_per_set_size tps (length (snd e)) = Inr tn"
    and vn: "if truthy val_size then size_per_set_size vps (length (snd e)) = Inr vn else vn = 0"
    and ten: "if test_size = None \<or> test_size = Some (- 1) then ten = - 1
          else 0 < the test_size \<and> size_per_set_size teps (length (snd e)) = Inr ten"
    and dr: "list_all2 (drawn perm tn vn ten) (pools_of (snd e)) ds"
    unfolding entry_drawn_def by blast
  have de: "distinct (concat (pools_of (snd e)))"
    using distinct_concat_map_mem[OF dist' e] .
  from entry_leaf_draw[OF dr de mem] obtain d where
    d: "drawn perm tn vn ten P d"
     "filter (\<lambda>x. x \<in> set P) (fst (cat3 ds)) = fst d"
     "filter (\<lambda>x. x \<in> set P) (fst (snd (cat3 ds))) = fst (snd d)"
     "filter (\<lambda>x. x \<in> set P) (snd (snd (cat3 ds))) = snd (snd d)"
    by blast
  have "filter (\<lambda>x. x \<in> set P) (fst (cat3 (concat dss))) = fst d"
    using f d(2) by (simp add: cat3_concat)
  moreover have "filter (\<lambda>x. x \<in> set P) (fst (snd (cat3 (concat dss)))) = fst (snd d)"
    using f d(3) by (simp add: cat3_concat)
  moreover have "filter (\<lambda>x. x \<in> set P) (snd (snd (cat3 (concat dss)))) = snd (snd d)"
    using f d(4) by (simp add: cat3_concat)
  ultimately show ?thesis using tn vn ten d(1) by blast
qed

subsection \<open>A servable request is served\<close>



















subsection \<open>Exact counts\<close>

lemma data_run_a:
  "data rotate_shuffle 0 [manifest_a] 4 (Some 4) None = Inr (bundle_a, 4)"
  by code_simp

text \<open>
  Every bundle that \<open>data\<close> writes has exact counts. When \<open>data\<close> writes a bundle for a
  manifest with the two presence states in every set size and filenames that are unique
  across the manifest, and a validation size that is not negative, then \<open>x_train\<close> has
  exactly \<open>train_size\<close> entries, \<open>x_val\<close> has exactly \<open>val_size\<close> entries, \<open>x_test\<close> has
  exactly \<open>test_size\<close> entries when a positive test size is given, and for every stimulus
  type, set size and presence state the number of files of that leaf pool in each split
  is the per-leaf count exactly: the size of the split divided by twice the number of
  set sizes of the stimulus type and by the number of stimulus types. When the test set
  takes the remainder and the shuffle permutes, the three splits together hold every
  file of the leaf pool.
\<close>

lemma data_exact_counts:
  assumes run: "data shuffle g [fnames_dict] train_size val_size test_size = Inr (b, g')"
    and two: "two_presence_states fnames_dict"
    and uniq: "distinct (filenames_of fnames_dict)"
    and nonneg: "\<forall>n. val_size = Some n \<longrightarrow> 0 \<le> n"
  shows "int (length (x_train b)) = train_size
     \<and> (case val_size of
          None \<Rightarrow> x_val b = None
        | Some n \<Rightarrow> if n = 0 then x_val b = None
                    else (\<exists>xv. x_val b = Some xv \<and> int (length xv) = n))
     \<and> (\<forall>n. test_size = Some n \<and> 0 < n \<longrightarrow> int (length (x_test b)) = n)
     \<and> (\<forall>(stim_type, stim_info_by_set_size) \<in> set fnames_dict.
         \<forall>(set_size, present_absent_dict) \<in> set stim_info_by_set_size.
         \<forall>(present_or_absent, stim_info_list) \<in> set present_absent_dict.
           int (count_from stim_info_list (x_train b))
             * (2 * int (length stim_info_by_set_size) * int (length fnames_dict)) = train_size
         \<and> (\<forall>n. val_size = Some n \<longrightarrow>
               int (count_from stim_info_list (val_files b))
                 * (2 * int (length stim_info_by_set_size) * int (length fnames_dict)) = n)
         \<and> (\<forall>n. test_size = Some n \<and> 0 < n \<longrightarrow>
               int (count_from stim_info_list (x_test b))
                 * (2 * int (length stim_info_by_set_size) * int (length fnames_dict)) = n)
         \<and> (permuting shuffle \<and> (test_size = None \<or> test_size = Some (- 1)) \<longrightarrow>
               count_from stim_info_list (x_train b) + count_from stim_info_list (val_files b)
                 + count_from stim_info_list (x_test b) = length stim_info_list))"
proof -
  let ?m = fnames_dict
  let ?perm = "permuting shuffle"
  from data_Inr[OF run] obtain tps vps teps dss where
    mne: "?m \<noteq> []" and tps: "train_size = int (length ?m) * tps"
    and tv: "truthy val_size" and vps: "the val_size = int (length ?m) * vps"
    and teps: "if truthy test_size then the test_size = int (length ?m) * teps else teps = - 1"
    and dss: "list_all2 (entry_drawn ?perm tps val_size vps test_size teps) ?m dss"
    and xt: "x_train b = fst (cat3 (concat dss))"
    and xv: "x_val b = Some (fst (snd (cat3 (concat dss))))"
    and xe: "x_test b = snd (snd (cat3 (concat dss)))"
    by auto
  from tv obtain nv where nv: "val_size = Some nv" "nv \<noteq> 0"
    by (cases val_size) (auto simp: truthy_def)
  have nv0: "0 \<le> nv" using nonneg nv by simp
  have lm: "0 < int (length ?m)" using mne by simp
  have vps0: "0 \<le> vps"
  proof (rule ccontr)
    assume "\<not> 0 \<le> vps"
    then have neg: "vps < 0" by simp
    have "int (length ?m) * vps < 0" using lm neg by (rule mult_pos_neg)
    then show False using vps nv nv0 by simp
  qed
  have vf: "val_files b = fst (snd (cat3 (concat dss)))"
    using xv by (simp add: val_files_def)
  have two': "list_all (\<lambda>(set_size, present_absent_dict). length present_absent_dict = 2
       \<and> set (map fst present_absent_dict) = {''present'', ''absent''}) (snd e)"
    if "e \<in> set ?m" for e
    using two that unfolding two_presence_states_def
    by (auto simp: list_all_iff case_prod_beta)
  \<comment> \<open>the totals\<close>
  have ltr: "list_all2 (\<lambda>e ds. int (length (fst (cat3 ds))) = tps) ?m dss"
    using dss by (rule list.rel_mono_strong) (use entry_lengths(1) two' tv vps0 in blast)
  have lva: "list_all2 (\<lambda>e ds. int (length (fst (snd (cat3 ds)))) = vps) ?m dss"
    using dss by (rule list.rel_mono_strong) (use entry_lengths(2) two' tv vps0 in blast)
  have c1: "int (length (x_train b)) = train_size"
    using sum_blocks[OF ltr] by (simp add: xt cat3_concat tps)
  have c2v: "int (length (fst (snd (cat3 (concat dss))))) = nv"
    using sum_blocks[OF lva] vps nv by (simp add: cat3_concat)
  have c2: "case val_size of
          None \<Rightarrow> x_val b = None
        | Some n \<Rightarrow> if n = 0 then x_val b = None
                    else (\<exists>xv. x_val b = Some xv \<and> int (length xv) = n)"
    using nv xv c2v by simp
  have tfix: "test_size \<noteq> None \<and> test_size \<noteq> Some (- 1) \<and> 0 < teps \<and> n = int (length ?m) * teps"
    if "test_size = Some n" "0 < n" for n
  proof -
    have t: "truthy test_size" using that by (simp add: truthy_def)
    with teps that have e: "n = int (length ?m) * teps" by simp
    have "0 < teps"
    proof (rule ccontr)
      assume "\<not> 0 < teps"
      then have np: "teps \<le> 0" by simp
      have nn: "0 \<le> int (length ?m)" by simp
      have "int (length ?m) * teps \<le> 0" using nn np by (rule mult_nonneg_nonpos)
      then show False using e that(2) by simp
    qed
    then show ?thesis using that e by auto
  qed
  have c3: "int (length (x_test b)) = n" if "test_size = Some n" "0 < n" for n
  proof -
    note T = tfix[OF that]
    have "list_all2 (\<lambda>e ds. int (length (snd (snd (cat3 ds)))) = teps) ?m dss"
      using dss by (rule list.rel_mono_strong) (use entry_lengths(3) two' tv vps0 T in blast)
    from sum_blocks[OF this] show ?thesis using T by (simp add: xe cat3_concat)
  qed
  \<comment> \<open>the leaves\<close>
  have leafc: "int (count_from infos (x_train b))
             * (2 * int (length by_ss) * int (length ?m)) = train_size
         \<and> (\<forall>n. val_size = Some n \<longrightarrow>
               int (count_from infos (val_files b))
                 * (2 * int (length by_ss) * int (length ?m)) = n)
         \<and> (\<forall>n. test_size = Some n \<and> 0 < n \<longrightarrow>
               int (count_from infos (x_test b))
                 * (2 * int (length by_ss) * int (length ?m)) = n)
         \<and> (?perm \<and> (test_size = None \<or> test_size = Some (- 1)) \<longrightarrow>
               count_from infos (x_train b) + count_from infos (val_files b)
                 + count_from infos (x_test b) = length infos)"
    if e: "(stim_type, by_ss) \<in> set ?m" and s: "(set_size, pa) \<in> set by_ss"
      and p: "(presence, infos) \<in> set pa"
    for stim_type by_ss set_size pa presence infos
  proof -
    let ?P = "map filename infos"
    have mem: "?P \<in> set (pools_of (snd (stim_type, by_ss)))"
      using pools_of_mem[OF s p] by simp
    from run_leaf_draw[OF dss uniq e mem, unfolded snd_conv] obtain tn vn ten d where
      tn: "size_per_set_size tps (length by_ss) = Inr tn"
      and vn: "if truthy val_size then size_per_set_size vps (length by_ss) = Inr vn else vn = 0"
      and ten: "if test_size = None \<or> test_size = Some (- 1) then ten = - 1
          else 0 < the test_size \<and> size_per_set_size teps (length by_ss) = Inr ten"
      and d: "drawn ?perm tn vn ten ?P d"
      and f1: "filter (\<lambda>x. x \<in> set ?P) (fst (cat3 (concat dss))) = fst d"
      and f2: "filter (\<lambda>x. x \<in> set ?P) (fst (snd (cat3 (concat dss)))) = fst (snd d)"
      and f3: "filter (\<lambda>x. x \<in> set ?P) (snd (snd (cat3 (concat dss)))) = snd (snd d)"
      by blast
    have k1: "count_from infos (x_train b) = nat tn"
      unfolding count_from_def xt f1 using drawn_D(2)[OF d] .
    have k2: "count_from infos (val_files b) = nat vn"
      unfolding count_from_def vf f2 using drawn_D(3)[OF d] .
    have k3: "count_from infos (x_test b) = length (snd (snd d))"
      unfolding count_from_def xe f3 ..
    note T = size_per_set_size_Inr[OF tn]
    have one: "1 \<le> tn" using drawn_D(1)[OF d] .
    have a1: "int (count_from infos (x_train b))
             * (2 * int (length by_ss) * int (length ?m)) = train_size"
      using k1 one T tps by (simp add: algebra_simps)
    from vn tv have "size_per_set_size vps (length by_ss) = Inr vn" by simp
    note V = size_per_set_size_Inr[OF this]
    have vn0: "0 \<le> vn"
    proof (rule ccontr)
      assume "\<not> 0 \<le> vn"
      then have neg: "vn < 0" by simp
      have pos: "0 < 2 * int (length by_ss)" using V by simp
      have "2 * int (length by_ss) * vn < 0" using pos neg by (rule mult_pos_neg)
      then show False using V vps0 by simp
    qed
    have a2: "\<forall>n. val_size = Some n \<longrightarrow>
               int (count_from infos (val_files b))
                 * (2 * int (length by_ss) * int (length ?m)) = n"
      using k2 vn0 V vps nv by (simp add: algebra_simps)
    have a3: "int (count_from infos (x_test b))
                 * (2 * int (length by_ss) * int (length ?m)) = n"
      if "test_size = Some n" "0 < n" for n
    proof -
      note F = tfix[OF that]
      with ten have "size_per_set_size teps (length by_ss) = Inr ten" by simp
      note E = size_per_set_size_Inr[OF this]
      have ten0: "0 < ten"
      proof (rule ccontr)
        assume "\<not> 0 < ten"
        then have np: "ten \<le> 0" by simp
        have nn: "0 \<le> 2 * int (length by_ss)" by simp
        have "2 * int (length by_ss) * ten \<le> 0" using nn np by (rule mult_nonneg_nonpos)
        then show False using E F by simp
      qed
      have "count_from infos (x_test b) = nat ten"
        using k3 drawn_D(4)[OF d ten0] by simp
      then show ?thesis using ten0 E F by (simp add: algebra_simps)
    qed
    have a4: "count_from infos (x_train b) + count_from infos (val_files b)
                 + count_from infos (x_test b) = length infos"
      if "?perm" "test_size = None \<or> test_size = Some (- 1)"
    proof -
      from ten that(2) have "ten = - 1" by simp
      from drawn_D(10)[OF d that(1) this] show ?thesis
        using k1 k2 k3 drawn_D(2,3)[OF d] by simp
    qed
    show ?thesis using a1 a2 a3 a4 by blast
  qed
  have c4: "\<forall>(stim_type, stim_info_by_set_size) \<in> set fnames_dict.
         \<forall>(set_size, present_absent_dict) \<in> set stim_info_by_set_size.
         \<forall>(present_or_absent, stim_info_list) \<in> set present_absent_dict.
           int (count_from stim_info_list (x_train b))
             * (2 * int (length stim_info_by_set_size) * int (length fnames_dict)) = train_size
         \<and> (\<forall>n. val_size = Some n \<longrightarrow>
               int (count_from stim_info_list (val_files b))
                 * (2 * int (length stim_info_by_set_size) * int (length fnames_dict)) = n)
         \<and> (\<forall>n. test_size = Some n \<and> 0 < n \<longrightarrow>
               int (count_from stim_info_list (x_test b))
                 * (2 * int (length stim_info_by_set_size) * int (length fnames_dict)) = n)
         \<and> (permuting shuffle \<and> (test_size = None \<or> test_size = Some (- 1)) \<longrightarrow>
               count_from stim_info_list (x_train b) + count_from stim_info_list (val_files b)
                 + count_from stim_info_list (x_test b) = length stim_info_list)"
    using leafc by (intro ballI, unfold split_paired_all prod.case) blast
  show ?thesis
    using c1 c2 c3 c4 by (intro conjI allI impI) auto
qed

lemma two_presence_states_a: "two_presence_states manifest_a"
  by code_simp

lemma distinct_filenames_a: "distinct (filenames_of manifest_a)"
  by code_simp

lemma data_exact_counts_example:
  "data rotate_shuffle 0 [manifest_a] 4 (Some 4) None = Inr (bundle_a, 4)
   \<and> two_presence_states manifest_a
   \<and> distinct (filenames_of manifest_a)
   \<and> int (length (x_train bundle_a)) = 4
   \<and> x_val bundle_a = Some [''1/present/b'', ''1/absent/c'', ''2/present/a'', ''2/absent/b'']
   \<and> int (count_from (pool ''2/absent/'' [''a'', ''b'', ''c'']) (x_train bundle_a)) * (2 * 2 * 1) = 4"
proof -
  have nn: "\<forall>n. Some (4 :: int) = Some n \<longrightarrow> 0 \<le> n" by simp
  note t = data_exact_counts [OF data_run_a two_presence_states_a distinct_filenames_a nn]
  have 1: "int (length (x_train bundle_a)) = 4" using t by blast
  have 2: "x_val bundle_a = Some [''1/present/b'', ''1/absent/c'', ''2/present/a'', ''2/absent/b'']"
    by (simp add: bundle_a_def)
  have 3: "int (count_from (pool ''2/absent/'' [''a'', ''b'', ''c'']) (x_train bundle_a)) * (2 * 2 * 1) = 4"
    by code_simp
  show ?thesis
    using data_run_a two_presence_states_a distinct_filenames_a 1 2 3 by blast
qed

text \<open>
  C1. A request that is divisible at every level and oversubscribes no leaf pool, and
  for which no bundle is produced. For the manifest with one stimulus type, two set
  sizes and three files in each of the four leaf pools, \<open>train_size = 4\<close> and
  \<open>val_size = 8\<close> give whole sizes at every level (4 and 8 per stimulus type, 1 and 2 per
  leaf), and the 3 files drawn from a leaf are no more than the 3 it holds, so the check
  of lines 194 to 201 passes. With no \<open>test_size\<close> the test set takes what is left of
  each pool, here nothing, and indexing with the empty array raises \<open>IndexError\<close>
  (lines 226 and 228).
\<close>

theorem exact_fit_request_raises:
  "bindE (true_div 4 (real (length manifest_a))) whole = Inr 4
   \<and> size_per_stim_type (Some 8) (length manifest_a) 0 = Inr 8
   \<and> map (\<lambda>(stim_type, stim_info_by_set_size). length stim_info_by_set_size) manifest_a = [2]
   \<and> size_per_set_size 4 2 = Inr 1
   \<and> size_per_set_size 8 2 = Inr 2
   \<and> map (\<lambda>(stim_type, stim_info_by_set_size). map length (pools_of stim_info_by_set_size))
         manifest_a = [[3, 3, 3, 3]]
   \<and> data rotate_shuffle 0 [manifest_a] 4 (Some 8) None = Inl IndexError"
  by code_simp

subsection \<open>No file in two splits\<close>

lemma mset_rotate1: "mset (rotate1 xs) = mset xs"
  by (cases xs) simp_all

lemma mset_rotate: "mset (rotate n xs) = mset xs"
  by (induction n) (simp_all add: mset_rotate1)

lemma permuting_rotate_shuffle: "permuting rotate_shuffle"
  by (simp add: permuting_def rotate_shuffle_def mset_rotate)

lemma distinct_draws:
  assumes "list_all2 (\<lambda>P d. set (fst d @ fst (snd d) @ snd (snd d)) \<subseteq> set P
                          \<and> (distinct P \<longrightarrow> distinct (fst d @ fst (snd d) @ snd (snd d))))
             fpools (ds :: draw list)"
    and "distinct (concat fpools)"
  shows "distinct (concat (map (\<lambda>d. fst d @ fst (snd d) @ snd (snd d)) ds))
       \<and> set (concat (map (\<lambda>d. fst d @ fst (snd d) @ snd (snd d)) ds)) \<subseteq> set (concat fpools)"
  using assms
proof (induction fpools ds rule: list_all2_induct)
  case Nil
  then show ?case by simp
next
  case (Cons P Ps d ds)
  let ?all = "\<lambda>d :: draw. fst d @ fst (snd d) @ snd (snd d)"
  from Cons.prems have dP: "distinct P" and dPs: "distinct (concat Ps)"
    and disj: "set P \<inter> set (concat Ps) = {}" by auto
  from Cons.IH[OF dPs] have ih: "distinct (concat (map ?all ds))"
    "set (concat (map ?all ds)) \<subseteq> set (concat Ps)" by simp_all
  from Cons.hyps(1) dP have h: "set (?all d) \<subseteq> set P" "distinct (?all d)" by simp_all
  have "set (?all d) \<inter> set (concat (map ?all ds)) = {}"
    using h(1) ih(2) disj by blast
  then have "distinct (?all d @ concat (map ?all ds))"
    using h(2) ih(1) by (simp only: distinct_append)
  moreover have "set (?all d @ concat (map ?all ds)) \<subseteq> set (P @ concat Ps)"
    using h(1) ih(2) by (simp only: set_append) blast
  ultimately show ?case by simp
qed

lemma filenames_of_concat:
  "concat (concat (map (\<lambda>e. pools_of (snd e)) m)) = filenames_of m"
  by (induction m) (simp_all add: filenames_of_alt)

lemma mset_cat3:
  "mset (fst (cat3 ds) @ fst (snd (cat3 ds)) @ snd (snd (cat3 ds)))
     = mset (concat (map (\<lambda>d. fst d @ fst (snd d) @ snd (snd d)) ds))"
  by (induction ds) (simp_all add: cat3_def)

text \<open>
  C8. When \<open>data\<close> writes a bundle for a manifest whose filenames are unique, and the
  shuffle permutes, no filename occurs twice in \<open>x_train\<close>, \<open>x_val\<close> and \<open>x_test\<close>
  taken together: the three filename sets are pairwise disjoint, no split repeats a
  file, and every file of a split is a file of the manifest.
\<close>

theorem data_splits_disjoint:
  assumes run: "data shuffle g [fnames_dict] train_size val_size test_size = Inr (b, g')"
    and uniq: "distinct (filenames_of fnames_dict)"
    and perm: "permuting shuffle"
  shows "distinct (x_train b @ val_files b @ x_test b)
     \<and> set (x_train b) \<inter> set (val_files b) = {}
     \<and> set (x_train b) \<inter> set (x_test b) = {}
     \<and> set (val_files b) \<inter> set (x_test b) = {}
     \<and> set (x_train b @ val_files b @ x_test b) \<subseteq> set (filenames_of fnames_dict)"
proof -
  let ?m = fnames_dict
  let ?all = "\<lambda>d :: draw. fst d @ fst (snd d) @ snd (snd d)"
  let ?R = "\<lambda>P d. set (?all d) \<subseteq> set P \<and> (distinct P \<longrightarrow> distinct (?all d))"
  from data_Inr[OF run] obtain tps vps teps dss where
    dss: "list_all2 (entry_drawn (permuting shuffle) tps val_size vps test_size teps) ?m dss"
    and xt: "x_train b = fst (cat3 (concat dss))"
    and xv: "x_val b = Some (fst (snd (cat3 (concat dss))))"
    and xe: "x_test b = snd (snd (cat3 (concat dss)))"
    by auto
  have vf: "val_files b = fst (snd (cat3 (concat dss)))"
    using xv by (simp add: val_files_def)
  have step: "list_all2 ?R (pools_of (snd e)) ds"
    if "entry_drawn (permuting shuffle) tps val_size vps test_size teps e ds" for e ds
  proof -
    from that obtain tn vn ten where
      "list_all2 (drawn (permuting shuffle) tn vn ten) (pools_of (snd e)) ds"
      unfolding entry_drawn_def by blast
    then show ?thesis
    proof (rule list_all2_mono)
      fix P d assume d: "drawn (permuting shuffle) tn vn ten P d"
      show "?R P d"
        using drawn_D(6,7,8)[OF d] drawn_D(9)[OF d perm] by simp
    qed
  qed
  have "list_all2 (\<lambda>e ds. list_all2 ?R (pools_of (snd e)) ds) ?m dss"
    using dss by (rule list_all2_mono) (rule step)
  then have flat: "list_all2 ?R (concat (map (\<lambda>e. pools_of (snd e)) ?m)) (concat dss)"
    by (rule list_all2_concat)
  have files: "concat (concat (map (\<lambda>e. pools_of (snd e)) ?m)) = filenames_of ?m"
    by (rule filenames_of_concat)
  from distinct_draws[OF flat] uniq files
  have d: "distinct (concat (map ?all (concat dss)))"
    and s: "set (concat (map ?all (concat dss))) \<subseteq> set (filenames_of ?m)"
    by simp_all
  have m: "mset (x_train b @ val_files b @ x_test b) = mset (concat (map ?all (concat dss)))"
    unfolding xt vf xe by (rule mset_cat3)
  have D: "distinct (x_train b @ val_files b @ x_test b)"
    using mset_eq_imp_distinct_iff[OF m] d by (simp only:)
  have "set (x_train b @ val_files b @ x_test b) = set (concat (map ?all (concat dss)))"
    using m by (rule mset_eq_setD)
  then have S: "set (x_train b @ val_files b @ x_test b) \<subseteq> set (filenames_of ?m)"
    using s by (simp only:)
  from D have I: "set (x_train b) \<inter> set (val_files b) = {}"
    "set (x_train b) \<inter> set (x_test b) = {}" "set (val_files b) \<inter> set (x_test b) = {}"
    by (simp_all only: distinct_append set_append) blast+
  show ?thesis using D S I by (intro conjI)
qed

theorem data_splits_disjoint_witness:
  "data rotate_shuffle 0 [manifest_a] 4 (Some 4) None = Inr (bundle_a, 4)
   \<and> distinct (filenames_of manifest_a)
   \<and> permuting rotate_shuffle
   \<and> distinct (x_train bundle_a @ val_files bundle_a @ x_test bundle_a)
   \<and> set (x_train bundle_a) \<inter> set (x_test bundle_a) = {}"
proof -
  note t = data_splits_disjoint [OF data_run_a distinct_filenames_a permuting_rotate_shuffle]
  show ?thesis
    using data_run_a distinct_filenames_a permuting_rotate_shuffle t by blast
qed

subsection \<open>Labels\<close>

lemma startswith_iff: "startswith s sub \<longleftrightarrow> (\<exists>suf. s = sub @ suf)"
  by (induction s sub rule: startswith.induct) auto

lemma str_in_iff: "str_in sub s \<longleftrightarrow> (\<exists>pre suf. s = pre @ sub @ suf)"
proof (induction s)
  case Nil
  then show ?case by auto
next
  case (Cons c s)
  have "(\<exists>pre suf. c # s = pre @ sub @ suf)
        \<longleftrightarrow> (\<exists>suf. c # s = sub @ suf) \<or> (\<exists>pre suf. s = pre @ sub @ suf)"
  proof
    assume "\<exists>pre suf. c # s = pre @ sub @ suf"
    then obtain pre suf where e: "c # s = pre @ sub @ suf" by blast
    show "(\<exists>suf. c # s = sub @ suf) \<or> (\<exists>pre suf. s = pre @ sub @ suf)"
    proof (cases pre)
      case Nil
      with e show ?thesis by auto
    next
      case (Cons p pre')
      with e have "s = pre' @ sub @ suf" by simp
      then show ?thesis by blast
    qed
  next
    assume "(\<exists>suf. c # s = sub @ suf) \<or> (\<exists>pre suf. s = pre @ sub @ suf)"
    then show "\<exists>pre suf. c # s = pre @ sub @ suf"
    proof
      assume "\<exists>suf. c # s = sub @ suf"
      then obtain suf where "c # s = [] @ sub @ suf" by auto
      then show ?thesis by blast
    next
      assume "\<exists>pre suf. s = pre @ sub @ suf"
      then obtain pre suf where "c # s = (c # pre) @ sub @ suf" by auto
      then show ?thesis by blast
    qed
  qed
  then show ?case using Cons.IH by (simp add: startswith_iff)
qed

lemma labels_nth:
  "i < length x \<Longrightarrow>
   labels x ! i = (if \<exists>pre suf. x ! i = pre @ ''present'' @ suf then 1 else 0)"
  by (simp add: labels_def str_in_iff)

lemma length_labels: "length (labels x) = length x"
  by (simp add: labels_def)

text \<open>
  C7. In every bundle \<open>data\<close> writes, each split has one label per file path, and the
  label of a sample is 1 if the path contains the substring \<open>present\<close> (it is some
  prefix, then \<open>present\<close>, then some suffix) and 0 otherwise.
\<close>

theorem labels_from_paths:
  assumes run: "data shuffle g fname_json train_size val_size test_size = Inr (b, g')"
  shows "length (y_train b) = length (x_train b)
     \<and> (\<forall>i < length (x_train b).
           y_train b ! i = (if \<exists>pre suf. x_train b ! i = pre @ ''present'' @ suf then 1 else 0))
     \<and> (case x_val b of
           None \<Rightarrow> y_val b = None
         | Some xv \<Rightarrow> (\<exists>yv. y_val b = Some yv \<and> length yv = length xv
              \<and> (\<forall>i < length xv.
                    yv ! i = (if \<exists>pre suf. xv ! i = pre @ ''present'' @ suf then 1 else 0))))
     \<and> length (y_test b) = length (x_test b)
     \<and> (\<forall>i < length (x_test b).
           y_test b ! i = (if \<exists>pre suf. x_test b ! i = pre @ ''present'' @ suf then 1 else 0))"
proof -
  from data_Inr[OF run] obtain xv where
    yt: "y_train b = labels (x_train b)" and ye: "y_test b = labels (x_test b)"
    and xv: "x_val b = Some xv" and yv: "y_val b = Some (labels xv)"
    by auto
  have 1: "length (y_train b) = length (x_train b)" by (simp add: yt length_labels)
  have 2: "\<forall>i < length (x_train b).
           y_train b ! i = (if \<exists>pre suf. x_train b ! i = pre @ ''present'' @ suf then 1 else 0)"
    unfolding yt using labels_nth by blast
  have 3: "case x_val b of
           None \<Rightarrow> y_val b = None
         | Some xv \<Rightarrow> (\<exists>yv. y_val b = Some yv \<and> length yv = length xv
              \<and> (\<forall>i < length xv.
                    yv ! i = (if \<exists>pre suf. xv ! i = pre @ ''present'' @ suf then 1 else 0)))"
    unfolding xv yv option.case using labels_nth[of _ xv] length_labels[of xv] by blast
  have 4: "length (y_test b) = length (x_test b)" by (simp add: ye length_labels)
  have 5: "\<forall>i < length (x_test b).
           y_test b ! i = (if \<exists>pre suf. x_test b ! i = pre @ ''present'' @ suf then 1 else 0)"
    unfolding ye using labels_nth by blast
  show ?thesis using 1 2 3 4 5 by (intro conjI)
qed

theorem labels_from_paths_witness:
  "data rotate_shuffle 0 [manifest_a] 4 (Some 4) None = Inr (bundle_a, 4)
   \<and> x_train bundle_a ! 0 = [] @ ''1/'' @ ''present'' @ ''/c''
   \<and> y_train bundle_a ! 0 = 1
   \<and> x_train bundle_a ! 1 = ''1/absent/a''
   \<and> y_train bundle_a ! 1 = 0"
proof -
  note t = labels_from_paths [OF data_run_a]
  have l: "0 < length (x_train bundle_a)" "1 < length (x_train bundle_a)"
    by (simp_all add: bundle_a_def)
  have x0: "x_train bundle_a ! 0 = ''1/'' @ ''present'' @ ''/c''"
    and x1: "x_train bundle_a ! 1 = ''1/absent/a''"
    by (simp_all add: bundle_a_def)
  have "\<exists>pre suf. x_train bundle_a ! 0 = pre @ ''present'' @ suf"
    using x0 by blast
  then have y0: "y_train bundle_a ! 0 = 1" using t l(1) by simp
  have y1: "y_train bundle_a ! 1 = 0" by (simp add: bundle_a_def)
  show ?thesis using data_run_a x0 x1 y0 y1 by simp
qed

subsection \<open>Where the code departs from its documentation\<close>

text \<open>
  C2. On \<open>manifest_a\<close> with \<open>train_size = 4\<close>, \<open>val_size = 4\<close> and no
  \<open>test_size\<close> the bundle has four test files and an empty \<open>stim_type_vec_test\<close>,
  and four training files with eight entries in \<open>stim_type_vec_train\<close>: line 231
  extends \<open>stim_type_vec_train\<close> where \<open>stim_type_vec_test\<close> is meant.
\<close>

theorem stim_type_vec_not_parallel:
  "data rotate_shuffle 0 [manifest_a] 4 (Some 4) None = Inr (bundle_a, 4)
   \<and> length (x_test bundle_a) = 4 \<and> length (stim_type_vec_test bundle_a) = 0
   \<and> length (x_train bundle_a) = 4 \<and> length (stim_type_vec_train bundle_a) = 8
   \<and> length (set_size_vec_train bundle_a) = 4 \<and> length (set_size_vec_test bundle_a) = 4"
  using data_run_a by (simp add: bundle_a_def)

text \<open>
  C3. With \<open>val_size\<close> unset the function does not run to completion: on
  \<open>manifest_a\<close> with \<open>train_size = 4\<close> it raises \<open>UnboundLocalError\<close> when the
  dictionary is built, because \<open>stim_type_vec_val\<close> was never assigned.
\<close>

theorem unset_val_size_raises:
  "data rotate_shuffle 0 [manifest_a] 4 None None = Inl UnboundLocalError
   \<and> data rotate_shuffle 0 [manifest_a] 4 (Some 0) None = Inl UnboundLocalError"
  by code_simp

text \<open>No bundle is ever written without a validation size.\<close>

lemma data_needs_val_size:
  "data shuffle g fname_json train_size val_size test_size = Inr r \<Longrightarrow> truthy val_size"
  using data_Inr[of shuffle g fname_json train_size val_size test_size "fst r" "snd r"]
  by auto

subsection \<open>The random stream is the only source of variation\<close>









lemma same_shuffles_refl: "same_shuffles (=) shuffle shuffle"
  by (simp add: same_shuffles_def)






subsection \<open>The tag vectors\<close>

text \<open>
  A property of the accumulators that each of the three blocks preserves is preserved
  by the loops.
\<close>

lemma leaf_blocks:
  assumes "leaf shuffle tn vn ten stim_type set_size stim_fnames (v, g) = Inr (v', g')"
  shows "\<exists>inds v1 inds1 v2 inds2.
      train_block tn stim_type set_size stim_fnames (v, inds) = Inr (v1, inds1)
    \<and> val_block vn stim_type set_size stim_fnames (v1, inds1) = Inr (v2, inds2)
    \<and> test_block ten stim_type set_size stim_fnames (v2, inds2) = Inr v'"
proof -
  obtain inds g1 where sh: "shuffle g [0..<length stim_fnames] = (inds, g1)"
    by (cases "shuffle g [0..<length stim_fnames]")
  show ?thesis
  proof (cases "train_block tn stim_type set_size stim_fnames (v, inds)")
    case (Inl e)
    with assms show ?thesis by (simp add: leaf_def Let_def sh split: if_splits)
  next
    case b1: (Inr s1)
    obtain v1 inds1 where s1: "s1 = (v1, inds1)" by (cases s1)
    show ?thesis
    proof (cases "val_block vn stim_type set_size stim_fnames (v1, inds1)")
      case (Inl e)
      with assms show ?thesis by (simp add: leaf_def Let_def sh b1 s1 split: if_splits)
    next
      case b2: (Inr s2)
      obtain v2 inds2 where s2: "s2 = (v2, inds2)" by (cases s2)
      show ?thesis
      proof (cases "test_block ten stim_type set_size stim_fnames (v2, inds2)")
        case (Inl e)
        with assms show ?thesis by (simp add: leaf_def Let_def sh b1 s1 b2 s2 split: if_splits)
      next
        case b3: (Inr v3)
        with assms have "v3 = v'" by (simp add: leaf_def Let_def sh b1 s1 b2 s2 split: if_splits)
        then show ?thesis using b1 b2 b3 s1 s2 by blast
      qed
    qed
  qed
qed

lemma loops_preserve:
  fixes m :: fnames_dict
  assumes run: "foldE (per_stim_type shuffle tps val_size vps test_size teps) m (v, sss, g)
                  = Inr (v', sss', g')"
    and I: "I v"
    and tb: "\<And>tn st ss fn v inds v' inds'.
               I v \<Longrightarrow> train_block tn st ss fn (v, inds) = Inr (v', inds') \<Longrightarrow> I v'"
    and vb: "\<And>vn st ss fn v inds v' inds'.
               I v \<Longrightarrow> val_block vn st ss fn (v, inds) = Inr (v', inds') \<Longrightarrow> I v'"
    and eb: "\<And>ten st ss fn v inds v'.
               I v \<Longrightarrow> test_block ten st ss fn (v, inds) = Inr v' \<Longrightarrow> I v'"
  shows "I v'"
proof -
  have lf: "I (fst s')"
    if "I (fst s)" "leaf shuffle tn vn ten st ss fn s = Inr s'" for tn vn ten st ss fn s s'
  proof -
    from that(2) have "leaf shuffle tn vn ten st ss fn (fst s, snd s) = Inr (fst s', snd s')"
      by simp
    from leaf_blocks[OF this] obtain inds v1 inds1 v2 inds2 where
      b1: "train_block tn st ss fn (fst s, inds) = Inr (v1, inds1)"
      and b2: "val_block vn st ss fn (v1, inds1) = Inr (v2, inds2)"
      and b3: "test_block ten st ss fn (v2, inds2) = Inr (fst s')"
      by blast
    have "I v1" using that(1) b1 by (rule tb)
    then have "I v2" using b2 by (rule vb)
    then show ?thesis using b3 by (rule eb)
  qed
  have pl: "I (fst s')"
    if "I (fst s)"
      "foldE (\<lambda>(present_or_absent, stim_fnames). leaf shuffle tn vn ten st ss stim_fnames) pa s
         = Inr s'"
    for tn vn ten st ss s s' and pa :: "(string \<times> string list) list"
    by (rule foldE_invariant[OF that(2), where I = "\<lambda>s. I (fst s)"])
       (use that(1) lf in \<open>auto simp: case_prod_beta\<close>)
  have sl: "I (fst s')"
    if "I (fst s)"
      "foldE (\<lambda>(set_size, stim_fnames_present_absent).
                foldE (\<lambda>(present_or_absent, stim_fnames).
                         leaf shuffle tn vn ten st set_size stim_fnames)
                      stim_fnames_present_absent) fss s = Inr s'"
    for tn vn ten st s s' and fss :: "(int \<times> (string \<times> string list) list) list"
    by (rule foldE_invariant[OF that(2), where I = "\<lambda>s. I (fst s)"])
       (use that(1) pl in \<open>auto simp: case_prod_beta\<close>)
  have ps: "I (fst s')"
    if i: "I (fst s)" and r: "per_stim_type shuffle tps val_size vps test_size teps entry s = Inr s'"
    for entry s s'
  proof -
    obtain stim_type by_ss where entry: "entry = (stim_type, by_ss)" by (cases entry)
    obtain v1 sss1 g1 where s: "s = (v1, sss1, g1)" by (cases s)
    define fss where "fss = map (\<lambda>(set_size, present_absent_dict).
                  (set_size, map (\<lambda>(present_or_absent, stim_info_list).
                                    (present_or_absent, map filename stim_info_list))
                                 present_absent_dict)) by_ss"
    define A where "A = size_per_set_size tps (length (map fst by_ss))"
    define B where "B = (if truthy val_size
            then size_per_set_size vps (length (map fst by_ss)) else Inr 0)"
    define C where "C = (if test_size = None \<or> test_size = Some (- 1) then Inr (- 1)
            else if 0 < the test_size
            then size_per_set_size teps (length (map fst by_ss))
            else Inl ValueError)"
    define L where "L tn vn ten =
       foldE (\<lambda>(set_size, stim_fnames_present_absent).
                foldE (\<lambda>(present_or_absent, stim_fnames).
                         leaf shuffle tn vn ten stim_type set_size stim_fnames)
                      stim_fnames_present_absent) fss (v1, g1)" for tn vn ten
    have unf: "per_stim_type shuffle tps val_size vps test_size teps entry s =
       bindE A (\<lambda>tn. bindE B (\<lambda>vn. bindE C (\<lambda>ten.
       bindE (L tn vn ten)
         (\<lambda>(v, g). Inr (v, dict_set stim_type (map fst by_ss) sss1, g)))))"
      unfolding per_stim_type_def entry s prod.case Let_def A_def B_def C_def fss_def L_def ..
    from r[unfolded unf] obtain tn where a: "A = Inr tn" by (cases A) simp_all
    from r[unfolded unf a] obtain vn where b: "B = Inr vn" by (cases B) simp_all
    from r[unfolded unf a b] obtain ten where c: "C = Inr ten" by (cases C) simp_all
    from r[unfolded unf a b c bindE_simps] obtain s1 where l: "L tn vn ten = Inr s1"
      by (cases "L tn vn ten") simp_all
    from r[unfolded unf a b c bindE_simps l] have f: "fst s' = fst s1"
      by (cases s1) auto
    have "I (fst s1)" using sl[OF _ l[unfolded L_def]] i s by simp
    then show ?thesis using f by simp
  qed
  have "I (fst (v', sss', g'))"
    by (rule foldE_invariant[OF run, where I = "\<lambda>s. I (fst s)"]) (use I ps in auto)
  then show ?thesis by simp
qed

lemma tags_init: "truthy val_size \<Longrightarrow> tags_as_written (init_vars val_size)"
  by (simp add: tags_as_written_def init_vars_def)

lemma tags_train_block:
  "tags_as_written v \<Longrightarrow> train_block tn st ss fn (v, inds) = Inr (v', inds')
   \<Longrightarrow> tags_as_written v'"
  unfolding train_block_def by (auto simp: bindE_Inr_iff tags_as_written_def)

lemma tags_val_block:
  "tags_as_written v \<Longrightarrow> val_block vn st ss fn (v, inds) = Inr (v', inds')
   \<Longrightarrow> tags_as_written v'"
  unfolding val_block_def
  by (auto simp: bindE_Inr_iff tags_as_written_def extend_opt_def
           split: if_splits option.splits)

lemma tags_test_block:
  "tags_as_written v \<Longrightarrow> test_block ten st ss fn (v, inds) = Inr v'
   \<Longrightarrow> tags_as_written v'"
  unfolding test_block_def by (auto simp: bindE_Inr_iff tags_as_written_def)

lemma data_loop:
  assumes "data shuffle g fname_json train_size val_size test_size = Inr (b, g')"
  shows "\<exists>m tps vps teps v sss.
      fname_json = [m]
    \<and> foldE (per_stim_type shuffle tps val_size vps test_size teps) m
          (init_vars val_size, [], g) = Inr (v, sss, g')
    \<and> make_dict val_size v sss = Inr b"
proof -
  from assms have c: "\<not> (fname_json = [] \<or> 1 < length fname_json)"
    unfolding data_def by (auto split: if_splits)
  then obtain m where m: "fname_json = [m]" by (cases fname_json) auto
  define A where "A = bindE (true_div (real_of_int train_size) (real (length m))) whole"
  define B where "B = size_per_stim_type val_size (length m) 0"
  define C where "C = size_per_stim_type test_size (length m) (- 1)"
  define L where "L tps vps teps =
     foldE (per_stim_type shuffle tps val_size vps test_size teps) m (init_vars val_size, [], g)"
    for tps vps teps
  have unf: "data shuffle g fname_json train_size val_size test_size =
     bindE A (\<lambda>tps. bindE B (\<lambda>vps. bindE C (\<lambda>teps.
     bindE (L tps vps teps)
       (\<lambda>(v, set_sizes, g). bindE (make_dict val_size v set_sizes)
                                 (\<lambda>data_dict. Inr (data_dict, g))))))"
    unfolding data_def Let_def A_def B_def C_def L_def m by simp
  note r = assms[unfolded unf]
  from r obtain tps where a: "A = Inr tps" by (cases A) simp_all
  from r[unfolded a] obtain vps where b: "B = Inr vps" by (cases B) simp_all
  from r[unfolded a b] obtain teps where c: "C = Inr teps" by (cases C) simp_all
  from r[unfolded a b c bindE_simps] obtain s1 where l: "L tps vps teps = Inr s1"
    by (cases "L tps vps teps") simp_all
  obtain v sss g1 where s1: "s1 = (v, sss, g1)" by (cases s1)
  from r[unfolded a b c bindE_simps l s1 prod.case]
  have "make_dict val_size v sss = Inr b \<and> g1 = g'"
    by (cases "make_dict val_size v sss") simp_all
  then show ?thesis using m l[unfolded L_def s1] by blast
qed

text \<open>
  In every bundle the set-size vectors are parallel to the file lists, and so is
  \<open>stim_type_vec_val\<close>; \<open>stim_type_vec_test\<close> is empty, and \<open>stim_type_vec_train\<close>
  is as long as \<open>x_train\<close> and \<open>x_test\<close> together.
\<close>

lemma data_tag_vectors:
  assumes run: "data shuffle g fname_json train_size val_size test_size = Inr (b, g')"
  shows "tags_as_written b"
proof -
  from data_loop[OF run] obtain m tps vps teps v sss where
    loop: "foldE (per_stim_type shuffle tps val_size vps test_size teps) m
          (init_vars val_size, [], g) = Inr (v, sss, g')"
    and md: "make_dict val_size v sss = Inr b"
    by blast
  have tv: "truthy val_size" using data_needs_val_size[OF run] .
  have "tags_as_written v"
    using loop tags_init[OF tv] tags_train_block tags_val_block tags_test_block
    by (rule loops_preserve)
  then show ?thesis using make_dict_Inr[OF md] by (simp add: tags_as_written_def)
qed

end
